theory Spec2Isabelle
  imports Complex_Main
begin

section \<open>The skip list of \<open>skip_list.hpp\<close>\<close>

text \<open>
  The class template \<open>SkipList<T>\<close> is embedded over an explicit store of nodes.
  A \<open>std::shared_ptr<Node>\<close> is an optional address (\<open>None\<close> is \<open>nullptr\<close>);
  the store is the list of all nodes allocated so far and an address is an index into it.
  A node is never removed from the store: a \<open>shared_ptr\<close> keeps its target alive for
  as long as some pointer refers to it, and a node nothing refers to cannot be observed.

  The element type \<open>T\<close> brings its own operators. They are parameters of every
  operation that compares elements: \<open>lt\<close> is \<open>operator<\<close> and \<open>eq\<close> is
  \<open>operator==\<close>; \<open>a != b\<close> is read as the negation of \<open>a == b\<close>, the way
  the compiler rewrites it for a type that declares \<open>operator==\<close> only.

  Every operation returns an \<open>option\<close>: \<open>None\<close> stands for a call with no defined
  result, that is an access through a null pointer or outside a vector (undefined
  behaviour in C++) or a loop that does not terminate. Exceptions are values of
  \<open>exn\<close>. The one allocation that may fail in the model is that of the new node in
  \<open>insert\<close>; the head node and the local vector \<open>update\<close> are taken to be allocated
  successfully (\<open>update\<close> is allocated before anything else happens in a call).
\<close>

subsection \<open>Nodes and the store\<close>

type_synonym addr = nat
type_synonym ptr = "addr option"

text \<open>\<open>struct Node\<close>; the field \<open>value\<close> is called \<open>val\<close> here.\<close>

record 'a Node =
  val :: 'a
  forward :: "ptr list"

type_synonym 'a heap = "'a Node list"

definition MAX_LEVEL :: nat where
  "MAX_LEVEL = 32"

text \<open>The constant \<open>P\<close> of the class.\<close>

definition P_level :: real where
  "P_level = 0.25"

text \<open>The two constructors of \<open>Node\<close>: from \<open>const T&\<close> and from \<open>T&&\<close>.\<close>

definition Node_copy :: "'a \<Rightarrow> nat \<Rightarrow> 'a Node" where
  "Node_copy v level = \<lparr>val = v, forward = replicate (level + 1) None\<rparr>"

definition Node_move :: "'a \<Rightarrow> nat \<Rightarrow> 'a Node" where
  "Node_move v level = \<lparr>val = v, forward = replicate (level + 1) None\<rparr>"

definition make_shared :: "'a Node \<Rightarrow> 'a heap \<Rightarrow> addr \<times> 'a heap" where
  "make_shared n h = (length h, h @ [n])"

text \<open>\<open>*p\<close> for a non-null \<open>p\<close>.\<close>

definition node :: "'a heap \<Rightarrow> addr \<Rightarrow> 'a Node option" where
  "node h a = (if a < length h then Some (h ! a) else None)"

text \<open>\<open>a->forward[i]\<close>, read and written; \<open>std::vector::operator[]\<close> is unchecked.\<close>

definition link :: "'a heap \<Rightarrow> addr \<Rightarrow> nat \<Rightarrow> ptr option" where
  "link h a i =
     (case node h a of
        None \<Rightarrow> None
      | Some n \<Rightarrow> if i < length (forward n) then Some (forward n ! i) else None)"

definition set_link :: "'a heap \<Rightarrow> addr \<Rightarrow> nat \<Rightarrow> ptr \<Rightarrow> 'a heap option" where
  "set_link h a i p =
     (case node h a of
        None \<Rightarrow> None
      | Some n \<Rightarrow>
          if i < length (forward n)
          then Some (h[a := n\<lparr>forward := (forward n)[i := p]\<rparr>])
          else None)"

text \<open>The local vector \<open>update\<close>, read and written.\<close>

definition load :: "ptr list \<Rightarrow> nat \<Rightarrow> ptr option" where
  "load u i = (if i < length u then Some (u ! i) else None)"

definition store :: "ptr list \<Rightarrow> nat \<Rightarrow> ptr \<Rightarrow> ptr list option" where
  "store u i p = (if i < length u then Some (u[i := p]) else None)"

subsection \<open>The class\<close>

text \<open>
  The data members of \<open>SkipList\<close>. \<open>rng\<close> holds the numbers that the calls
  \<open>dist(rng)\<close> still to come will return, in order; \<open>dist\<close> is the constant uniform
  distribution on \<open>[0, 1)\<close> and has no field of its own. \<open>size_m\<close> is the member \<open>size_\<close>. \<open>size_t\<close> is a natural
  number: neither counter can leave its range, as the store cannot hold \<open>2^64\<close> nodes.
\<close>

record SkipList =
  head :: ptr
  current_level :: nat
  size_m :: nat
  rng :: "nat \<Rightarrow> real"

datatype exn = runtime_error string | bad_alloc

record Iterator =
  current :: ptr

subsection \<open>\<open>random_level\<close>\<close>

function random_level_loop :: "(nat \<Rightarrow> real) \<Rightarrow> nat \<Rightarrow> nat \<times> (nat \<Rightarrow> real)" where
  "random_level_loop g level =
     (if g 0 < P_level \<and> level < MAX_LEVEL
      then random_level_loop (\<lambda>n. g (Suc n)) (level + 1)
      else (level, (\<lambda>n. g (Suc n))))"
  by pat_completeness auto
termination
  by (relation "measure (\<lambda>(g, level). MAX_LEVEL - level)") auto

declare random_level_loop.simps [simp del]

definition random_level :: "(nat \<Rightarrow> real) \<Rightarrow> nat \<times> (nat \<Rightarrow> real)" where
  "random_level g = random_level_loop g 0"

subsection \<open>The iterator\<close>

definition Iterator_deref :: "'a heap \<Rightarrow> Iterator \<Rightarrow> (exn + 'a) option" where
  "Iterator_deref h it =
     (case current it of
        None \<Rightarrow> Some (Inl (runtime_error ''Dereferencing null iterator''))
      | Some a \<Rightarrow> (case node h a of None \<Rightarrow> None | Some n \<Rightarrow> Some (Inr (val n))))"

text \<open>\<open>operator->\<close> returns the address of the value, which is that of its node.\<close>

definition Iterator_arrow :: "'a heap \<Rightarrow> Iterator \<Rightarrow> (exn + addr) option" where
  "Iterator_arrow h it =
     (case current it of
        None \<Rightarrow> Some (Inl (runtime_error ''Dereferencing null iterator''))
      | Some a \<Rightarrow> (case node h a of None \<Rightarrow> None | Some n \<Rightarrow> Some (Inr a)))"

definition Iterator_incr :: "'a heap \<Rightarrow> Iterator \<Rightarrow> Iterator option" where
  "Iterator_incr h it =
     (case current it of
        None \<Rightarrow> Some it
      | Some a \<Rightarrow> (case link h a 0 of None \<Rightarrow> None | Some p \<Rightarrow> Some (it\<lparr>current := p\<rparr>)))"

text \<open>Post-increment: the old position and the advanced iterator.\<close>

definition Iterator_post_incr :: "'a heap \<Rightarrow> Iterator \<Rightarrow> (Iterator \<times> Iterator) option" where
  "Iterator_post_incr h it =
     (let temp = it in
      case Iterator_incr h it of None \<Rightarrow> None | Some it' \<Rightarrow> Some (temp, it'))"

definition Iterator_eq :: "Iterator \<Rightarrow> Iterator \<Rightarrow> bool" where
  "Iterator_eq a b = (current a = current b)"

definition Iterator_neq :: "Iterator \<Rightarrow> Iterator \<Rightarrow> bool" where
  "Iterator_neq a b = (\<not> Iterator_eq a b)"

subsection \<open>Construction, move and clear\<close>

text \<open>
  The default constructor. \<open>dflt\<close> is \<open>T{}\<close> and \<open>seed\<close> stands for the numbers
  the freshly seeded generator will produce.
\<close>

definition SkipList_default :: "'a \<Rightarrow> (nat \<Rightarrow> real) \<Rightarrow> 'a heap \<Rightarrow> 'a heap \<times> SkipList" where
  "SkipList_default dflt seed h =
     (let (hd_node, h') = make_shared (Node_move dflt MAX_LEVEL) h
      in (h', \<lparr>head = Some hd_node, current_level = 0, size_m = 0, rng = seed\<rparr>))"

text \<open>
  The move constructor: the new object and what is left of \<open>other\<close>. Moving a
  \<open>shared_ptr\<close> leaves null behind; moving the generator copies it.
\<close>

definition SkipList_move :: "SkipList \<Rightarrow> SkipList \<times> SkipList" where
  "SkipList_move other =
     (\<lparr>head = head other, current_level = current_level other,
       size_m = size_m other, rng = rng other\<rparr>,
      other\<lparr>head := None, current_level := 0, size_m := 0\<rparr>)"

text \<open>
  Move assignment to \<open>this\<close> from a different object \<open>other\<close> (the guard
  \<open>this != &other\<close> holds): the two objects afterwards.
\<close>

definition SkipList_move_assign :: "SkipList \<Rightarrow> SkipList \<Rightarrow> SkipList \<times> SkipList" where
  "SkipList_move_assign this other =
     (this\<lparr>head := head other, current_level := current_level other,
           size_m := size_m other, rng := rng other\<rparr>,
      other\<lparr>head := None, current_level := 0, size_m := 0\<rparr>)"

definition SkipList_clear :: "'a \<Rightarrow> 'a heap \<Rightarrow> SkipList \<Rightarrow> 'a heap \<times> SkipList" where
  "SkipList_clear dflt h s =
     (let (hd_node, h') = make_shared (Node_move dflt MAX_LEVEL) h
      in (h', s\<lparr>head := Some hd_node, current_level := 0, size_m := 0\<rparr>))"

definition SkipList_size :: "SkipList \<Rightarrow> nat" where
  "SkipList_size s = size_m s"

definition SkipList_empty :: "SkipList \<Rightarrow> bool" where
  "SkipList_empty s = (size_m s = 0)"

definition SkipList_begin :: "'a heap \<Rightarrow> SkipList \<Rightarrow> Iterator option" where
  "SkipList_begin h s =
     (case head s of
        None \<Rightarrow> None
      | Some hd_node \<Rightarrow>
          (case link h hd_node 0 of None \<Rightarrow> None | Some p \<Rightarrow> Some \<lparr>current = p\<rparr>))"

definition SkipList_end :: Iterator where
  "SkipList_end = \<lparr>current = None\<rparr>"

subsection \<open>The search\<close>

text \<open>
  The inner loop, the same in \<open>insert\<close>, \<open>erase\<close> and \<open>find\<close>:
  \<^verbatim>\<open>while (current->forward[i] && current->forward[i]->value < value)
      current = current->forward[i];\<close>
  It runs for ever on a cyclic chain, so it is a partial function.
\<close>

partial_function (option) advance ::
  "('a \<Rightarrow> 'a \<Rightarrow> bool) \<Rightarrow> 'a heap \<Rightarrow> 'a \<Rightarrow> nat \<Rightarrow> addr \<Rightarrow> addr option" where
  "advance lt h v i cur =
     (case link h cur i of
        None \<Rightarrow> None
      | Some None \<Rightarrow> Some cur
      | Some (Some nxt) \<Rightarrow>
          (case node h nxt of
             None \<Rightarrow> None
           | Some n \<Rightarrow> if lt (val n) v then advance lt h v i nxt else Some cur))"

declare advance.simps [code]

text \<open>
  The outer loop of \<open>insert\<close> and \<open>erase\<close>,
  \<open>for (int i = current_level; i >= 0; i--)\<close>, which records \<open>update[i]\<close>; it
  returns the last \<open>current\<close> and the vector.
\<close>

fun descend ::
  "('a \<Rightarrow> 'a \<Rightarrow> bool) \<Rightarrow> 'a heap \<Rightarrow> 'a \<Rightarrow> nat \<Rightarrow> addr \<Rightarrow> ptr list \<Rightarrow> (addr \<times> ptr list) option" where
  "descend lt h v 0 cur update =
     (case advance lt h v 0 cur of
        None \<Rightarrow> None
      | Some c \<Rightarrow>
          (case store update 0 (Some c) of None \<Rightarrow> None | Some u \<Rightarrow> Some (c, u)))"
| "descend lt h v (Suc i) cur update =
     (case advance lt h v (Suc i) cur of
        None \<Rightarrow> None
      | Some c \<Rightarrow>
          (case store update (Suc i) (Some c) of
             None \<Rightarrow> None
           | Some u \<Rightarrow> descend lt h v i c u))"

text \<open>The outer loop of \<open>find\<close>, which keeps no vector.\<close>

fun descend_find ::
  "('a \<Rightarrow> 'a \<Rightarrow> bool) \<Rightarrow> 'a heap \<Rightarrow> 'a \<Rightarrow> nat \<Rightarrow> addr \<Rightarrow> addr option" where
  "descend_find lt h v 0 cur = advance lt h v 0 cur"
| "descend_find lt h v (Suc i) cur =
     (case advance lt h v (Suc i) cur of
        None \<Rightarrow> None
      | Some c \<Rightarrow> descend_find lt h v i c)"

subsection \<open>\<open>insert\<close>\<close>

text \<open>\<open>for (size_t i = current_level + 1; i <= new_level; i++) update[i] = head;\<close>\<close>

function raise_update :: "ptr list \<Rightarrow> ptr \<Rightarrow> nat \<Rightarrow> nat \<Rightarrow> ptr list option" where
  "raise_update update hd_ptr i new_level =
     (if i \<le> new_level
      then (case store update i hd_ptr of
              None \<Rightarrow> None
            | Some u \<Rightarrow> raise_update u hd_ptr (i + 1) new_level)
      else Some update)"
  by pat_completeness auto
termination
  by (relation "measure (\<lambda>(update, hd_ptr, i, new_level). Suc new_level - i)") auto

declare raise_update.simps [simp del]

text \<open>
  \<^verbatim>\<open>for (size_t i = 0; i <= new_level; i++) {
      new_node->forward[i] = update[i]->forward[i];
      update[i]->forward[i] = new_node;
  }\<close>
\<close>

function splice_links :: "'a heap \<Rightarrow> ptr list \<Rightarrow> addr \<Rightarrow> nat \<Rightarrow> nat \<Rightarrow> 'a heap option" where
  "splice_links h update new_node i new_level =
     (if i \<le> new_level
      then (case load update i of
              None \<Rightarrow> None
            | Some None \<Rightarrow> None
            | Some (Some p) \<Rightarrow>
                (case link h p i of
                   None \<Rightarrow> None
                 | Some q \<Rightarrow>
                     (case set_link h new_node i q of
                        None \<Rightarrow> None
                      | Some h1 \<Rightarrow>
                          (case set_link h1 p i (Some new_node) of
                             None \<Rightarrow> None
                           | Some h2 \<Rightarrow> splice_links h2 update new_node (i + 1) new_level))))
      else Some h)"
  by pat_completeness auto
termination
  by (relation "measure (\<lambda>(h, update, new_node, i, new_level). Suc new_level - i)") auto

declare splice_links.simps [simp del]

text \<open>
  The part of \<open>insert\<close> after the search, which is the same text in the two overloads
  but for the constructor of \<open>Node\<close> that \<open>std::make_shared\<close> calls, here \<open>mk\<close>:
  \<^verbatim>\<open>if (!current || current->value != value) {
      size_t new_level = random_level();
      if (new_level > current_level) {
          for (...) update[i] = head;
          current_level = new_level;
      }
      auto new_node = std::make_shared<Node>(value, new_level);
      for (...) { ... }
      size_++;
  }\<close>
  \<open>cur\<close> is \<open>current\<close>. \<open>mem\<close> tells whether \<open>std::make_shared\<close> finds memory:
  when it does not, \<open>bad_alloc\<close> leaves the function with the object as it is at that
  point.
\<close>

definition insert_rest ::
  "('a \<Rightarrow> 'a \<Rightarrow> bool) \<Rightarrow> ('a \<Rightarrow> nat \<Rightarrow> 'a Node) \<Rightarrow> bool \<Rightarrow> 'a \<Rightarrow> 'a heap \<Rightarrow> SkipList \<Rightarrow>
     ptr list \<Rightarrow> ptr \<Rightarrow> ((exn + unit) \<times> 'a heap \<times> SkipList) option" where
  "insert_rest eq mk mem v h s update cur =
     (case (case cur of
              None \<Rightarrow> Some True
            | Some c \<Rightarrow> (case node h c of None \<Rightarrow> None | Some n \<Rightarrow> Some (\<not> eq (val n) v))) of
        None \<Rightarrow> None
      | Some False \<Rightarrow> Some (Inr (), h, s)
      | Some True \<Rightarrow>
          (let (new_level, g) = random_level (rng s);
               s1 = s\<lparr>rng := g\<rparr>
           in case (if new_level > current_level s1
                    then (case raise_update update (head s1) (current_level s1 + 1) new_level of
                            None \<Rightarrow> None
                          | Some u \<Rightarrow> Some (u, s1\<lparr>current_level := new_level\<rparr>))
                    else Some (update, s1)) of
                None \<Rightarrow> None
              | Some (update', s2) \<Rightarrow>
                  if \<not> mem then Some (Inl bad_alloc, h, s2)
                  else
                    (let (new_node, h1) = make_shared (mk v new_level) h
                     in case splice_links h1 update' new_node 0 new_level of
                          None \<Rightarrow> None
                        | Some h2 \<Rightarrow> Some (Inr (), h2, s2\<lparr>size_m := size_m s2 + 1\<rparr>))))"

text \<open>\<open>void insert(const T& value)\<close>\<close>

definition SkipList_insert ::
  "('a \<Rightarrow> 'a \<Rightarrow> bool) \<Rightarrow> ('a \<Rightarrow> 'a \<Rightarrow> bool) \<Rightarrow> bool \<Rightarrow> 'a \<Rightarrow> 'a heap \<Rightarrow> SkipList \<Rightarrow>
     ((exn + unit) \<times> 'a heap \<times> SkipList) option" where
  "SkipList_insert lt eq mem v h s =
     (case head s of
        None \<Rightarrow> None
      | Some hd_node \<Rightarrow>
          (case descend lt h v (current_level s) hd_node (replicate (MAX_LEVEL + 1) None) of
             None \<Rightarrow> None
           | Some (pred, update) \<Rightarrow>
               (case link h pred 0 of
                  None \<Rightarrow> None
                | Some cur \<Rightarrow> insert_rest eq Node_copy mem v h s update cur)))"

text \<open>\<open>void insert(T&& value)\<close>\<close>

definition SkipList_insert_rvalue ::
  "('a \<Rightarrow> 'a \<Rightarrow> bool) \<Rightarrow> ('a \<Rightarrow> 'a \<Rightarrow> bool) \<Rightarrow> bool \<Rightarrow> 'a \<Rightarrow> 'a heap \<Rightarrow> SkipList \<Rightarrow>
     ((exn + unit) \<times> 'a heap \<times> SkipList) option" where
  "SkipList_insert_rvalue lt eq mem v h s =
     (case head s of
        None \<Rightarrow> None
      | Some hd_node \<Rightarrow>
          (case descend lt h v (current_level s) hd_node (replicate (MAX_LEVEL + 1) None) of
             None \<Rightarrow> None
           | Some (pred, update) \<Rightarrow>
               (case link h pred 0 of
                  None \<Rightarrow> None
                | Some cur \<Rightarrow> insert_rest eq Node_move mem v h s update cur)))"

subsection \<open>\<open>erase\<close>\<close>

text \<open>
  \<^verbatim>\<open>for (size_t i = 0; i <= current_level; i++) {
      if (update[i]->forward[i] != current) break;
      update[i]->forward[i] = current->forward[i];
  }\<close>
\<close>

function unlink :: "'a heap \<Rightarrow> ptr list \<Rightarrow> addr \<Rightarrow> nat \<Rightarrow> nat \<Rightarrow> 'a heap option" where
  "unlink h update cur i level =
     (if i \<le> level
      then (case load update i of
              None \<Rightarrow> None
            | Some None \<Rightarrow> None
            | Some (Some p) \<Rightarrow>
                (case link h p i of
                   None \<Rightarrow> None
                 | Some q \<Rightarrow>
                     if q \<noteq> Some cur then Some h
                     else (case link h cur i of
                             None \<Rightarrow> None
                           | Some r \<Rightarrow>
                               (case set_link h p i r of
                                  None \<Rightarrow> None
                                | Some h1 \<Rightarrow> unlink h1 update cur (i + 1) level))))
      else Some h)"
  by pat_completeness auto
termination
  by (relation "measure (\<lambda>(h, update, cur, i, level). Suc level - i)") auto

declare unlink.simps [simp del]

text \<open>\<open>while (current_level > 0 && !head->forward[current_level]) current_level--;\<close>\<close>

fun lower_level :: "'a heap \<Rightarrow> addr \<Rightarrow> nat \<Rightarrow> nat option" where
  "lower_level h hd_node 0 = Some 0"
| "lower_level h hd_node (Suc l) =
     (case link h hd_node (Suc l) of
        None \<Rightarrow> None
      | Some None \<Rightarrow> lower_level h hd_node l
      | Some (Some a) \<Rightarrow> Some (Suc l))"

text \<open>
  \<open>bool erase(const T& value)\<close>. \<open>size_--\<close> is reached only with a node found, so
  the subtraction on \<open>nat\<close> is the one of the code whenever \<open>size_\<close> counts the nodes.
\<close>

definition SkipList_erase ::
  "('a \<Rightarrow> 'a \<Rightarrow> bool) \<Rightarrow> ('a \<Rightarrow> 'a \<Rightarrow> bool) \<Rightarrow> 'a \<Rightarrow> 'a heap \<Rightarrow> SkipList \<Rightarrow>
     (bool \<times> 'a heap \<times> SkipList) option" where
  "SkipList_erase lt eq v h s =
     (case head s of
        None \<Rightarrow> None
      | Some hd_node \<Rightarrow>
          (case descend lt h v (current_level s) hd_node (replicate (MAX_LEVEL + 1) None) of
             None \<Rightarrow> None
           | Some (pred, update) \<Rightarrow>
               (case link h pred 0 of
                  None \<Rightarrow> None
                | Some None \<Rightarrow> Some (False, h, s)
                | Some (Some cur) \<Rightarrow>
                    (case node h cur of
                       None \<Rightarrow> None
                     | Some n \<Rightarrow>
                         if eq (val n) v
                         then (case unlink h update cur 0 (current_level s) of
                                 None \<Rightarrow> None
                               | Some h1 \<Rightarrow>
                                   (case lower_level h1 hd_node (current_level s) of
                                      None \<Rightarrow> None
                                    | Some l \<Rightarrow>
                                        Some (True, h1,
                                          s\<lparr>current_level := l, size_m := size_m s - 1\<rparr>)))
                         else Some (False, h, s)))))"

subsection \<open>\<open>find\<close>\<close>

definition SkipList_find ::
  "('a \<Rightarrow> 'a \<Rightarrow> bool) \<Rightarrow> ('a \<Rightarrow> 'a \<Rightarrow> bool) \<Rightarrow> 'a \<Rightarrow> 'a heap \<Rightarrow> SkipList \<Rightarrow> Iterator option" where
  "SkipList_find lt eq v h s =
     (case head s of
        None \<Rightarrow> None
      | Some hd_node \<Rightarrow>
          (case descend_find lt h v (current_level s) hd_node of
             None \<Rightarrow> None
           | Some pred \<Rightarrow>
               (case link h pred 0 of
                  None \<Rightarrow> None
                | Some None \<Rightarrow> Some \<lparr>current = None\<rparr>
                | Some (Some cur) \<Rightarrow>
                    (case node h cur of
                       None \<Rightarrow> None
                     | Some n \<Rightarrow>
                         if eq (val n) v then Some \<lparr>current = Some cur\<rparr>
                         else Some \<lparr>current = None\<rparr>))))"

subsection \<open>Full iteration\<close>

text \<open>
  The loop \<open>for (const auto& item : list)\<close> of the copy constructor and of the tests,
  from the iterator \<open>it\<close> to \<open>end()\<close>, collecting the items it visits. On a cyclic
  chain it does not terminate.
\<close>

partial_function (option) traverse :: "'a heap \<Rightarrow> Iterator \<Rightarrow> 'a list option" where
  "traverse h it =
     (if Iterator_neq it SkipList_end
      then (case Iterator_deref h it of
              None \<Rightarrow> None
            | Some (Inl e) \<Rightarrow> None
            | Some (Inr item) \<Rightarrow>
                (case Iterator_incr h it of
                   None \<Rightarrow> None
                 | Some it' \<Rightarrow> Option.bind (traverse h it') (\<lambda>items. Some (item # items))))
      else Some [])"

declare traverse.simps [code]

definition iterate :: "'a heap \<Rightarrow> SkipList \<Rightarrow> 'a list option" where
  "iterate h s = (case SkipList_begin h s of None \<Rightarrow> None | Some it \<Rightarrow> traverse h it)"

subsection \<open>Copy construction and copy assignment\<close>

text \<open>
  The loop of the copy constructor,
  \<^verbatim>\<open>for (const auto& item : other) insert(item);\<close>
  from the iterator \<open>it\<close> on: each round dereferences \<open>it\<close>, inserts the item into
  \<open>this\<close> (in the same store) and then advances \<open>it\<close>. The allocations succeed.
\<close>

partial_function (option) copy_items ::
  "('a \<Rightarrow> 'a \<Rightarrow> bool) \<Rightarrow> ('a \<Rightarrow> 'a \<Rightarrow> bool) \<Rightarrow> 'a heap \<Rightarrow> SkipList \<Rightarrow> Iterator \<Rightarrow>
     ('a heap \<times> SkipList) option" where
  "copy_items lt eq h this it =
     (if Iterator_neq it SkipList_end
      then (case Iterator_deref h it of
              None \<Rightarrow> None
            | Some (Inl e) \<Rightarrow> None
            | Some (Inr item) \<Rightarrow>
                (case SkipList_insert lt eq True item h this of
                   None \<Rightarrow> None
                 | Some (Inl e, st) \<Rightarrow> None
                 | Some (Inr u, h', this') \<Rightarrow>
                     (case Iterator_incr h' it of
                        None \<Rightarrow> None
                      | Some it' \<Rightarrow> copy_items lt eq h' this' it')))
      else Some (h, this))"

declare copy_items.simps [code]

text \<open>
  \<open>SkipList(const SkipList& other)\<close>: the store and the new object. The new list has a
  generator of its own, seeded with \<open>seed\<close>.
\<close>

definition SkipList_copy ::
  "('a \<Rightarrow> 'a \<Rightarrow> bool) \<Rightarrow> ('a \<Rightarrow> 'a \<Rightarrow> bool) \<Rightarrow> 'a \<Rightarrow> (nat \<Rightarrow> real) \<Rightarrow> 'a heap \<Rightarrow> SkipList \<Rightarrow>
     ('a heap \<times> SkipList) option" where
  "SkipList_copy lt eq dflt seed h other =
     (let (h1, this) = SkipList_default dflt seed h
      in case SkipList_begin h1 other of
           None \<Rightarrow> None
         | Some it \<Rightarrow> copy_items lt eq h1 this it)"

text \<open>
  \<open>std::swap(a, b)\<close> on two different objects, by the move constructor and two move
  assignments: \<open>T tmp(std::move(a)); a = std::move(b); b = std::move(tmp);\<close>
\<close>

definition swap_lists :: "SkipList \<Rightarrow> SkipList \<Rightarrow> SkipList \<times> SkipList" where
  "swap_lists a b =
     (let (tmp, a1) = SkipList_move a;
          (a2, b1) = SkipList_move_assign a1 b;
          (b2, tmp1) = SkipList_move_assign b1 tmp
      in (a2, b2))"

text \<open>
  Copy assignment to \<open>this\<close> from a different object \<open>other\<close>: the store and \<open>this\<close>
  afterwards (\<open>temp\<close> goes out of scope).
\<close>

definition SkipList_copy_assign ::
  "('a \<Rightarrow> 'a \<Rightarrow> bool) \<Rightarrow> ('a \<Rightarrow> 'a \<Rightarrow> bool) \<Rightarrow> 'a \<Rightarrow> (nat \<Rightarrow> real) \<Rightarrow> 'a heap \<Rightarrow> SkipList \<Rightarrow> SkipList \<Rightarrow>
     ('a heap \<times> SkipList) option" where
  "SkipList_copy_assign lt eq dflt seed h this other =
     (case SkipList_copy lt eq dflt seed h other of
        None \<Rightarrow> None
      | Some (h', temp) \<Rightarrow> Some (h', fst (swap_lists this temp)))"

subsection \<open>A client\<close>

text \<open>
  Client code as in the tests: a sequence of calls on one object, each of which returns
  normally (the allocations succeed). \<open>Move_construct\<close> and \<open>Copy_construct\<close>
  construct a new object from the current one, by move and by copy.
  \<open>Move_assign this\<close> and \<open>Copy_assign this\<close> assign the current object to
  another object \<open>this\<close>, by \<open>this = std::move(current)\<close> and by
  \<open>this = current\<close>. After each of the four the calls that follow are made on the
  object constructed or assigned to; the source of a move is not followed. \<open>run\<close>
  gives the store and the object after the last call.
\<close>

datatype 'a operation =
  Insert 'a | Insert_rvalue 'a | Erase 'a | Find 'a | Clear | Move_construct
  | Copy_construct "nat \<Rightarrow> real" | Move_assign SkipList | Copy_assign SkipList "nat \<Rightarrow> real"

fun call ::
  "('a \<Rightarrow> 'a \<Rightarrow> bool) \<Rightarrow> ('a \<Rightarrow> 'a \<Rightarrow> bool) \<Rightarrow> 'a \<Rightarrow> 'a operation \<Rightarrow> 'a heap \<times> SkipList \<Rightarrow>
     ('a heap \<times> SkipList) option" where
  "call lt eq dflt (Insert v) (h, s) =
     (case SkipList_insert lt eq True v h s of
        Some (Inr u, h', s') \<Rightarrow> Some (h', s')
      | _ \<Rightarrow> None)"
| "call lt eq dflt (Insert_rvalue v) (h, s) =
     (case SkipList_insert_rvalue lt eq True v h s of
        Some (Inr u, h', s') \<Rightarrow> Some (h', s')
      | _ \<Rightarrow> None)"
| "call lt eq dflt (Erase v) (h, s) =
     (case SkipList_erase lt eq v h s of
        Some (b, h', s') \<Rightarrow> Some (h', s')
      | None \<Rightarrow> None)"
| "call lt eq dflt (Find v) (h, s) =
     (case SkipList_find lt eq v h s of
        Some it \<Rightarrow> Some (h, s)
      | None \<Rightarrow> None)"
| "call lt eq dflt Clear (h, s) = Some (SkipList_clear dflt h s)"
| "call lt eq dflt Move_construct (h, s) = Some (h, fst (SkipList_move s))"
| "call lt eq dflt (Copy_construct seed) (h, s) = SkipList_copy lt eq dflt seed h s"
| "call lt eq dflt (Move_assign this) (h, s) = Some (h, fst (SkipList_move_assign this s))"
| "call lt eq dflt (Copy_assign this seed) (h, s) =
     SkipList_copy_assign lt eq dflt seed h this s"

fun run ::
  "('a \<Rightarrow> 'a \<Rightarrow> bool) \<Rightarrow> ('a \<Rightarrow> 'a \<Rightarrow> bool) \<Rightarrow> 'a \<Rightarrow> 'a operation list \<Rightarrow> 'a heap \<times> SkipList \<Rightarrow>
     ('a heap \<times> SkipList) option" where
  "run lt eq dflt [] st = Some st"
| "run lt eq dflt (c # cs) st =
     (case call lt eq dflt c st of None \<Rightarrow> None | Some st' \<Rightarrow> run lt eq dflt cs st')"

section \<open>Specification\<close>

subsection \<open>The element type\<close>

text \<open>
  What the container asks of \<open>T\<close>: \<open>operator<\<close> is a strict weak ordering, and
  \<open>operator==\<close> agrees with the equivalence derived from it.
\<close>

definition derived_eq :: "('a \<Rightarrow> 'a \<Rightarrow> bool) \<Rightarrow> 'a \<Rightarrow> 'a \<Rightarrow> bool" where
  "derived_eq lt a b \<longleftrightarrow> \<not> lt a b \<and> \<not> lt b a"

definition strict_weak_order :: "('a \<Rightarrow> 'a \<Rightarrow> bool) \<Rightarrow> bool" where
  "strict_weak_order lt \<longleftrightarrow>
     (\<forall>a. \<not> lt a a) \<and>
     (\<forall>a b c. lt a b \<longrightarrow> lt b c \<longrightarrow> lt a c) \<and>
     (\<forall>a b c. derived_eq lt a b \<longrightarrow> derived_eq lt b c \<longrightarrow> derived_eq lt a c)"

definition consistent_eq :: "('a \<Rightarrow> 'a \<Rightarrow> bool) \<Rightarrow> ('a \<Rightarrow> 'a \<Rightarrow> bool) \<Rightarrow> bool" where
  "consistent_eq lt eq \<longleftrightarrow> (\<forall>a b. eq a b = derived_eq lt a b)"

subsection \<open>The shape of a skip list in the store\<close>

text \<open>The number of link slots of the node at \<open>a\<close> (its level plus one), and its value.\<close>

definition height :: "'a heap \<Rightarrow> addr \<Rightarrow> nat" where
  "height h a = (case node h a of None \<Rightarrow> 0 | Some n \<Rightarrow> length (forward n))"

definition value_at :: "'a heap \<Rightarrow> addr \<Rightarrow> 'a" where
  "value_at h a = val (h ! a)"

text \<open>
  \<open>path h i a ns\<close>: following the links of level \<open>i\<close> from the node at \<open>a\<close> visits
  the nodes \<open>ns\<close>, in this order, and then reaches null.
\<close>

fun path :: "'a heap \<Rightarrow> nat \<Rightarrow> addr \<Rightarrow> addr list \<Rightarrow> bool" where
  "path h i a [] = (link h a i = Some None)"
| "path h i a (b # bs) = (link h a i = Some (Some b) \<and> path h i b bs)"

text \<open>
  \<open>skiplist lt h s ns\<close>: the object \<open>s\<close> is a well-formed skip list in the store
  \<open>h\<close> whose real nodes are \<open>ns\<close>, in the order of level 0. The head has all
  \<open>MAX_LEVEL + 1\<close> slots; no real node is higher than \<open>current_level\<close>; the values
  ascend strictly; the chain of each level holds exactly the nodes that have a slot at
  that level, in the order of level 0; \<open>size_\<close> counts the real nodes.
\<close>

definition skiplist :: "('a \<Rightarrow> 'a \<Rightarrow> bool) \<Rightarrow> 'a heap \<Rightarrow> SkipList \<Rightarrow> addr list \<Rightarrow> bool" where
  "skiplist lt h s ns \<longleftrightarrow>
     (case head s of
        None \<Rightarrow> False
      | Some hd_node \<Rightarrow>
          height h hd_node = MAX_LEVEL + 1 \<and> hd_node \<notin> set ns \<and> distinct ns \<and>
          current_level s \<le> MAX_LEVEL \<and> size_m s = length ns \<and>
          (\<forall>a \<in> set ns. 0 < height h a \<and> height h a \<le> current_level s + 1) \<and>
          sorted_wrt (\<lambda>a b. lt (value_at h a) (value_at h b)) ns \<and>
          (\<forall>i \<le> MAX_LEVEL. path h i hd_node (filter (\<lambda>a. i < height h a) ns)))"

definition valid :: "('a \<Rightarrow> 'a \<Rightarrow> bool) \<Rightarrow> 'a heap \<Rightarrow> SkipList \<Rightarrow> bool" where
  "valid lt h s \<longleftrightarrow> (\<exists>ns. skiplist lt h s ns)"

text \<open>
  The order of the stored values when \<open>operator==\<close> is not the equivalence that
  \<open>operator<\<close> induces: the values need not ascend strictly, but none is greater than
  a later one. \<open>valid (not_greater lt) h s\<close> is a skip list with such values.
  \<open>downward R lt\<close> is what the search needs of the order \<open>R\<close> of the values: in
  front of a value less than \<open>v\<close> there are only values less than \<open>v\<close>.
\<close>

definition not_greater :: "('a \<Rightarrow> 'a \<Rightarrow> bool) \<Rightarrow> 'a \<Rightarrow> 'a \<Rightarrow> bool" where
  "not_greater lt a b \<longleftrightarrow> \<not> lt b a"

definition downward :: "('a \<Rightarrow> 'a \<Rightarrow> bool) \<Rightarrow> ('a \<Rightarrow> 'a \<Rightarrow> bool) \<Rightarrow> bool" where
  "downward R lt \<longleftrightarrow> (\<forall>x y v. R x y \<longrightarrow> lt y v \<longrightarrow> lt x v)"

text \<open>
  The predecessor of \<open>v\<close> at level \<open>i\<close>: the last node of that level's chain whose
  value is less than \<open>v\<close>, or the head when there is none.
\<close>

definition pred_at :: "('a \<Rightarrow> 'a \<Rightarrow> bool) \<Rightarrow> 'a heap \<Rightarrow> 'a \<Rightarrow> addr \<Rightarrow> addr list \<Rightarrow> nat \<Rightarrow> addr" where
  "pred_at lt h v hd_node ns i =
     last (hd_node # filter (\<lambda>a. i < height h a) (takeWhile (\<lambda>b. lt (value_at h b) v) ns))"

text \<open>
  The test by which \<open>insert\<close>, \<open>erase\<close> and \<open>find\<close> decide whether \<open>v\<close> is present,
  read on the ascending sequence \<open>xs\<close> of the values: there is a first value that is not
  less than \<open>v\<close>, and \<open>operator==\<close> holds between it and \<open>v\<close>.
\<close>

definition found :: "('a \<Rightarrow> 'a \<Rightarrow> bool) \<Rightarrow> ('a \<Rightarrow> 'a \<Rightarrow> bool) \<Rightarrow> 'a \<Rightarrow> 'a list \<Rightarrow> bool" where
  "found lt eq v xs = (case dropWhile (\<lambda>x. lt x v) xs of [] \<Rightarrow> False | c # _ \<Rightarrow> eq c v)"

subsection \<open>An example\<close>

text \<open>
  The set \<open>{3, 5, 7}\<close> of the tests, after \<open>insert(5)\<close>, \<open>insert(3)\<close>,
  \<open>insert(7)\<close> on a new list whose generator sends every node to level 0: the head at
  address 0 and the three nodes at the addresses 1, 2 and 3.
\<close>

definition example_heap :: "int heap" where
  "example_heap =
     [\<lparr>val = 0, forward = Some 2 # replicate 32 None\<rparr>,
      \<lparr>val = 5, forward = [Some 3]\<rparr>,
      \<lparr>val = 3, forward = [Some 1]\<rparr>,
      \<lparr>val = 7, forward = [None]\<rparr>]"

definition example_list :: SkipList where
  "example_list = \<lparr>head = Some 0, current_level = 0, size_m = 3, rng = (\<lambda>n. 1 / 2)\<rparr>"

text \<open>A generator that sends the first node to level 1 and every later one to level 0.\<close>

definition example_seed :: "nat \<Rightarrow> real" where
  "example_seed = (\<lambda>n. if n = 0 then 1 / 10 else 1 / 2)"

text \<open>
  \<open>CustomType\<close> of the tests, a number and a name: \<open>operator<\<close> compares the numbers,
  \<open>operator==\<close> compares both members. A list of this type that holds \<open>(2, "two")\<close>.
\<close>

definition custom_less :: "int \<times> string \<Rightarrow> int \<times> string \<Rightarrow> bool" where
  "custom_less a b = (fst a < fst b)"

definition custom_heap :: "(int \<times> string) heap" where
  "custom_heap =
     [\<lparr>val = (0, []), forward = Some 1 # replicate 32 None\<rparr>,
      \<lparr>val = (2, ''two''), forward = [None]\<rparr>]"

definition custom_list :: SkipList where
  "custom_list = \<lparr>head = Some 0, current_level = 0, size_m = 1, rng = (\<lambda>n. 1 / 2)\<rparr>"

text \<open>
  The list of this type after \<open>insert((2, "two"))\<close> and \<open>insert((2, "deux"))\<close> on a new
  list: the second node is linked in front of the first.
\<close>

definition custom_pair_heap :: "(int \<times> string) heap" where
  "custom_pair_heap =
     [\<lparr>val = (0, []), forward = Some 2 # replicate 32 None\<rparr>,
      \<lparr>val = (2, ''two''), forward = [None]\<rparr>,
      \<lparr>val = (2, ''deux''), forward = [Some 1]\<rparr>]"

definition custom_pair_list :: SkipList where
  "custom_pair_list = \<lparr>head = Some 0, current_level = 0, size_m = 2, rng = (\<lambda>n. 1 / 2)\<rparr>"

section \<open>Verification\<close>

subsection \<open>The store\<close>

lemma node_Some_iff: "node h a = Some n \<longleftrightarrow> a < length h \<and> n = h ! a"
  by (auto simp: node_def)

lemma node_None_iff: "node h a = None \<longleftrightarrow> length h \<le> a"
  by (auto simp: node_def)

lemma link_defined_iff: "(\<exists>p. link h a i = Some p) \<longleftrightarrow> i < height h a"
  by (auto simp: link_def height_def split: option.splits)

lemma link_None_iff: "link h a i = None \<longleftrightarrow> height h a \<le> i"
  by (auto simp: link_def height_def split: option.splits)

lemma height_valid: "i < height h a \<Longrightarrow> a < length h"
  by (auto simp: height_def node_def split: if_splits)

lemma set_link_defined: "i < height h a \<Longrightarrow> \<exists>h'. set_link h a i p = Some h'"
  by (auto simp: set_link_def height_def split: option.splits)

lemma set_link_length: "set_link h a i p = Some h' \<Longrightarrow> length h' = length h"
  by (auto simp: set_link_def split: option.splits if_splits)

lemma set_link_height: "set_link h a i p = Some h' \<Longrightarrow> height h' b = height h b"
  by (auto simp: set_link_def height_def node_def nth_list_update split: option.splits if_splits)

lemma set_link_value: "set_link h a i p = Some h' \<Longrightarrow> value_at h' b = value_at h b"
  by (cases "b = a") (auto simp: set_link_def value_at_def node_def split: option.splits if_splits)

lemma set_link_link:
  "set_link h a i p = Some h' \<Longrightarrow> link h' b j = (if b = a \<and> j = i then Some p else link h b j)"
  by (auto simp: set_link_def link_def node_def nth_list_update split: option.splits if_splits)

lemma append_node: "a < length h \<Longrightarrow> node (h @ [n]) a = node h a"
  by (simp add: node_def nth_append)

lemma append_link: "a \<noteq> length h \<Longrightarrow> link (h @ [n]) a i = link h a i"
  by (cases "a < length h") (simp_all add: link_def node_def nth_append)

lemma append_height: "a < length h \<Longrightarrow> height (h @ [n]) a = height h a"
  by (simp add: height_def append_node)

lemma append_value: "a < length h \<Longrightarrow> value_at (h @ [n]) a = value_at h a"
  by (simp add: value_at_def nth_append)

lemma append_new_node: "node (h @ [n]) (length h) = Some n"
  by (simp add: node_def)

lemma append_new_height: "height (h @ [n]) (length h) = length (forward n)"
  by (simp add: height_def append_new_node)

lemma append_new_value: "value_at (h @ [n]) (length h) = val n"
  by (simp add: value_at_def)

lemma append_new_link:
  "i < length (forward n) \<Longrightarrow> link (h @ [n]) (length h) i = Some (forward n ! i)"
  by (simp add: link_def append_new_node)

subsection \<open>Paths\<close>

lemma path_cong:
  "(\<And>b. b \<in> set (a # ns) \<Longrightarrow> link h' b i = link h b i) \<Longrightarrow> path h' i a ns = path h i a ns"
  by (induction ns arbitrary: a) auto

lemma path_height: "path h i a ns \<Longrightarrow> b \<in> set (a # ns) \<Longrightarrow> i < height h b"
proof (induction ns arbitrary: a)
  case Nil
  then show ?case using link_defined_iff [of h a i] by auto
next
  case (Cons x xs)
  then show ?case using link_defined_iff [of h a i] by auto
qed

lemma path_suffix: "path h i a (xs @ y # ys) \<Longrightarrow> path h i y ys"
  by (induction xs arbitrary: a) auto

lemma path_unique: "path h i a ns \<Longrightarrow> path h i a ms \<Longrightarrow> ns = ms"
proof (induction ns arbitrary: a ms)
  case Nil
  then show ?case by (cases ms) auto
next
  case (Cons x xs)
  then show ?case by (cases ms) auto
qed

lemma path_splice:
  assumes "path h i a (xs @ ys)"
    and "distinct (a # xs @ ys)" and "nw \<notin> set (a # xs @ ys)"
    and "link h' (last (a # xs)) i = Some (Some nw)"
    and "link h' nw i = link h (last (a # xs)) i"
    and "\<And>b. b \<noteq> nw \<Longrightarrow> b \<noteq> last (a # xs) \<Longrightarrow> link h' b i = link h b i"
  shows "path h' i a (xs @ nw # ys)"
  using assms
proof (induction xs arbitrary: a)
  case Nil
  have "path h' i nw ys"
  proof (cases ys)
    case Nil
    with Nil.prems show ?thesis by simp
  next
    case (Cons y zs)
    have "\<And>b. b \<in> set (y # zs) \<Longrightarrow> b \<noteq> nw \<and> b \<noteq> a"
      using Nil.prems Cons by auto
    then have "\<And>b. b \<in> set (y # zs) \<Longrightarrow> link h' b i = link h b i"
      using Nil.prems(6) by simp
    then have "path h' i y zs = path h i y zs"
      by (rule path_cong)
    with Nil.prems Cons show ?thesis by simp
  qed
  with Nil.prems show ?case by simp
next
  case (Cons x xs)
  have "last (x # xs) \<in> set (x # xs)" by (rule last_in_set) simp
  with Cons.prems have "a \<noteq> last (a # x # xs)" and "a \<noteq> nw" by auto
  then have "link h' a i = link h a i" using Cons.prems(6) by blast
  moreover have "path h' i x (xs @ nw # ys)"
    using Cons.prems by (intro Cons.IH) auto
  ultimately show ?case using Cons.prems(1) by simp
qed

lemma path_unlink:
  assumes "path h i a (xs @ c # ys)"
    and "distinct (a # xs @ c # ys)"
    and "link h' (last (a # xs)) i = link h c i"
    and "\<And>b. b \<noteq> last (a # xs) \<Longrightarrow> link h' b i = link h b i"
  shows "path h' i a (xs @ ys)"
  using assms
proof (induction xs arbitrary: a)
  case Nil
  show ?case
  proof (cases ys)
    case Nil
    with Nil.prems show ?thesis by simp
  next
    case (Cons y zs)
    have "\<And>b. b \<in> set (y # zs) \<Longrightarrow> b \<noteq> a"
      using Nil.prems Cons by auto
    then have "\<And>b. b \<in> set (y # zs) \<Longrightarrow> link h' b i = link h b i"
      using Nil.prems(4) by simp
    then have "path h' i y zs = path h i y zs"
      by (rule path_cong)
    with Nil.prems Cons show ?thesis by simp
  qed
next
  case (Cons x xs)
  have "last (x # xs) \<in> set (x # xs)" by (rule last_in_set) simp
  with Cons.prems have "a \<noteq> last (a # x # xs)" by auto
  then have "link h' a i = link h a i" using Cons.prems(4) by blast
  moreover have "path h' i x (xs @ ys)"
    using Cons.prems by (intro Cons.IH) auto
  ultimately show ?case using Cons.prems(1) by simp
qed

subsection \<open>Sorted lists\<close>

lemma takeWhile_filter_sorted:
  assumes "sorted_wrt R xs" and "\<And>x y. R x y \<Longrightarrow> P y \<Longrightarrow> P x"
  shows "takeWhile P (filter Q xs) = filter Q (takeWhile P xs)"
  using assms(1)
proof (induction xs)
  case Nil
  then show ?case by simp
next
  case (Cons x xs)
  show ?case
  proof (cases "P x")
    case True
    with Cons show ?thesis by simp
  next
    case False
    have "\<And>y. y \<in> set xs \<Longrightarrow> \<not> P y"
      using Cons.prems False assms(2) by auto
    then have "takeWhile P (filter Q xs) = []"
      by (cases "filter Q xs") (auto dest: filter_eq_ConsD)
    with False show ?thesis by simp
  qed
qed

lemma dropWhile_filter_sorted:
  assumes "sorted_wrt R xs" and "\<And>x y. R x y \<Longrightarrow> P y \<Longrightarrow> P x"
  shows "dropWhile P (filter Q xs) = filter Q (dropWhile P xs)"
proof -
  have tw: "takeWhile P (filter Q xs) = filter Q (takeWhile P xs)"
    using assms(1) by (rule takeWhile_filter_sorted) (rule assms(2))
  have "filter Q xs = filter Q (takeWhile P xs) @ filter Q (dropWhile P xs)"
    by (metis filter_append takeWhile_dropWhile_id)
  moreover have "filter Q xs = takeWhile P (filter Q xs) @ dropWhile P (filter Q xs)"
    by simp
  ultimately show ?thesis
    using tw by (metis same_append_eq)
qed

subsection \<open>The search\<close>

lemma advance_path:
  "path h i a ns \<Longrightarrow>
   advance lt h v i a = Some (last (a # takeWhile (\<lambda>b. lt (value_at h b) v) ns))"
proof (induction ns arbitrary: a)
  case Nil
  then show ?case by (subst advance.simps) simp
next
  case (Cons b bs)
  from Cons.prems have l: "link h a i = Some (Some b)" and p: "path h i b bs" by auto
  from p have "i < height h b" by (rule path_height) simp
  then have "b < length h" by (rule height_valid)
  then have n: "node h b = Some (h ! b)" by (simp add: node_def)
  show ?case
  proof (cases "lt (value_at h b) v")
    case True
    then show ?thesis
      using l n Cons.IH [OF p] by (subst advance.simps) (simp add: value_at_def)
  next
    case False
    then show ?thesis
      using l n by (subst advance.simps) (simp add: value_at_def)
  qed
qed

lemma advance_mid:
  "path h i a ns \<Longrightarrow> c \<in> set (a # takeWhile (\<lambda>b. lt (value_at h b) v) ns) \<Longrightarrow>
   advance lt h v i c = Some (last (a # takeWhile (\<lambda>b. lt (value_at h b) v) ns))"
proof (induction ns arbitrary: a)
  case Nil
  then show ?case using advance_path [of h i a "[]" lt v] by simp
next
  case (Cons x xs)
  show ?case
  proof (cases "c = a")
    case True
    then show ?thesis using advance_path [OF Cons.prems(1)] by simp
  next
    case False
    with Cons.prems(2) have px: "lt (value_at h x) v"
      and c: "c \<in> set (x # takeWhile (\<lambda>b. lt (value_at h b) v) xs)"
      by (auto split: if_splits)
    from Cons.prems(1) have "path h i x xs" by simp
    from Cons.IH [OF this c] px show ?thesis by simp
  qed
qed

text \<open>
  The lemmas on the search take the order \<open>R\<close> in which the values are stored apart
  from \<open>lt\<close>, the \<open>operator<\<close> by which the code searches. \<open>R\<close> is \<open>lt\<close> itself
  where \<open>operator==\<close> agrees with \<open>operator<\<close>, and \<open>not_greater lt\<close> in general.
\<close>

lemma advance_level:
  assumes "sorted_wrt (\<lambda>a b. R (value_at h a) (value_at h b)) ns"
    and "downward R lt"
    and "path h i hd_node (filter (\<lambda>a. i < height h a) ns)"
    and "cur \<in> set (hd_node # filter (\<lambda>a. i < height h a)
                                 (takeWhile (\<lambda>b. lt (value_at h b) v) ns))"
  shows "advance lt h v i cur = Some (pred_at lt h v hd_node ns i)"
proof -
  have "takeWhile (\<lambda>b. lt (value_at h b) v) (filter (\<lambda>a. i < height h a) ns) =
        filter (\<lambda>a. i < height h a) (takeWhile (\<lambda>b. lt (value_at h b) v) ns)"
    using assms(1) by (rule takeWhile_filter_sorted) (insert assms(2), unfold downward_def, blast)
  with advance_mid [OF assms(3), of cur lt v] assms(4) show ?thesis
    by (simp add: pred_at_def)
qed

lemma pred_at_mem:
  "j \<le> i \<Longrightarrow>
   pred_at lt h v hd_node ns i \<in>
     set (hd_node # filter (\<lambda>a. j < height h a) (takeWhile (\<lambda>b. lt (value_at h b) v) ns))"
proof -
  assume "j \<le> i"
  let ?A = "\<lambda>k. hd_node # filter (\<lambda>a. k < height h a) (takeWhile (\<lambda>b. lt (value_at h b) v) ns)"
  have "last (?A i) \<in> set (?A i)" by (rule last_in_set) simp
  moreover have "set (?A i) \<subseteq> set (?A j)" using \<open>j \<le> i\<close> by auto
  ultimately show ?thesis unfolding pred_at_def by blast
qed

lemma descend_spec:
  assumes "sorted_wrt (\<lambda>a b. R (value_at h a) (value_at h b)) ns"
    and "downward R lt"
    and "\<And>j. j \<le> i \<Longrightarrow> path h j hd_node (filter (\<lambda>a. j < height h a) ns)"
    and "cur \<in> set (hd_node # filter (\<lambda>a. i < height h a)
                                 (takeWhile (\<lambda>b. lt (value_at h b) v) ns))"
    and "i < length upd"
  shows "\<exists>upd'. descend lt h v i cur upd = Some (pred_at lt h v hd_node ns 0, upd') \<and>
           length upd' = length upd \<and>
           (\<forall>j\<le>i. upd' ! j = Some (pred_at lt h v hd_node ns j)) \<and>
           (\<forall>j>i. upd' ! j = upd ! j)"
  using assms(3-5)
proof (induction i arbitrary: cur upd)
  case 0
  have "advance lt h v 0 cur = Some (pred_at lt h v hd_node ns 0)"
    using assms(1,2) "0.prems"(1) [of 0] "0.prems"(2) by (intro advance_level) auto
  with "0.prems"(3) show ?case by (simp add: store_def)
next
  case (Suc i)
  let ?p = "pred_at lt h v hd_node ns (Suc i)"
  have adv: "advance lt h v (Suc i) cur = Some ?p"
    using assms(1,2) Suc.prems(1) [of "Suc i"] Suc.prems(2) by (intro advance_level) auto
  have "\<exists>upd'. descend lt h v i ?p (upd[Suc i := Some ?p]) =
           Some (pred_at lt h v hd_node ns 0, upd') \<and>
           length upd' = length (upd[Suc i := Some ?p]) \<and>
           (\<forall>j\<le>i. upd' ! j = Some (pred_at lt h v hd_node ns j)) \<and>
           (\<forall>j>i. upd' ! j = (upd[Suc i := Some ?p]) ! j)"
    using Suc.prems by (intro Suc.IH pred_at_mem) auto
  then obtain upd' where d: "descend lt h v i ?p (upd[Suc i := Some ?p]) =
           Some (pred_at lt h v hd_node ns 0, upd')"
    and l: "length upd' = length upd"
    and lo: "\<forall>j\<le>i. upd' ! j = Some (pred_at lt h v hd_node ns j)"
    and hi: "\<forall>j>i. upd' ! j = (upd[Suc i := Some ?p]) ! j"
    by auto
  have "\<forall>j\<le>Suc i. upd' ! j = Some (pred_at lt h v hd_node ns j)"
    using lo hi Suc.prems(3) by (auto simp: le_Suc_eq)
  moreover have "\<forall>j>Suc i. upd' ! j = upd ! j"
    using hi by auto
  ultimately show ?case
    using adv d l Suc.prems(3) by (simp add: store_def)
qed

lemma descend_find_spec:
  assumes "sorted_wrt (\<lambda>a b. R (value_at h a) (value_at h b)) ns"
    and "downward R lt"
    and "\<And>j. j \<le> i \<Longrightarrow> path h j hd_node (filter (\<lambda>a. j < height h a) ns)"
    and "cur \<in> set (hd_node # filter (\<lambda>a. i < height h a)
                                 (takeWhile (\<lambda>b. lt (value_at h b) v) ns))"
  shows "descend_find lt h v i cur = Some (pred_at lt h v hd_node ns 0)"
  using assms(3-4)
proof (induction i arbitrary: cur)
  case 0
  show ?case
    using assms(1,2) "0.prems"(1) [of 0] "0.prems"(2) by (simp add: advance_level)
next
  case (Suc i)
  let ?p = "pred_at lt h v hd_node ns (Suc i)"
  have adv: "advance lt h v (Suc i) cur = Some ?p"
    using assms(1,2) Suc.prems(1) [of "Suc i"] Suc.prems(2) by (intro advance_level) auto
  have "descend_find lt h v i ?p = Some (pred_at lt h v hd_node ns 0)"
    using Suc.prems by (intro Suc.IH pred_at_mem) auto
  with adv show ?case by simp
qed

subsection \<open>The loops of \<open>insert\<close> and \<open>erase\<close>\<close>

lemma random_level_loop_le:
  "level \<le> MAX_LEVEL \<Longrightarrow> fst (random_level_loop g level) \<le> MAX_LEVEL"
proof (induction g level rule: random_level_loop.induct)
  case (1 g level)
  show ?case
  proof (cases "g 0 < P_level \<and> level < MAX_LEVEL")
    case True
    then have "fst (random_level_loop (\<lambda>n. g (Suc n)) (level + 1)) \<le> MAX_LEVEL"
      using "1.IH" by simp
    with True show ?thesis by (subst random_level_loop.simps) simp
  next
    case False
    with "1.prems" show ?thesis by (subst random_level_loop.simps) auto
  qed
qed

lemma random_level_le: "fst (random_level g) \<le> MAX_LEVEL"
  by (simp add: random_level_def random_level_loop_le)

lemma raise_update_spec:
  "new_level < length upd \<Longrightarrow>
   \<exists>upd'. raise_update upd p i new_level = Some upd' \<and> length upd' = length upd \<and>
     (\<forall>j<length upd. upd' ! j = (if i \<le> j \<and> j \<le> new_level then p else upd ! j))"
proof (induction upd p i new_level rule: raise_update.induct)
  case (1 update hd_ptr i new_level)
  show ?case
  proof (cases "i \<le> new_level")
    case True
    with "1.prems" have st: "store update i hd_ptr = Some (update[i := hd_ptr])"
      by (simp add: store_def)
    from "1.IH" [OF True st] "1.prems"
    obtain upd' where r: "raise_update (update[i := hd_ptr]) hd_ptr (i + 1) new_level = Some upd'"
      and l: "length upd' = length update"
      and e: "\<forall>j<length update. upd' ! j =
               (if i + 1 \<le> j \<and> j \<le> new_level then hd_ptr else (update[i := hd_ptr]) ! j)"
      by auto
    have "\<forall>j<length update. upd' ! j = (if i \<le> j \<and> j \<le> new_level then hd_ptr else update ! j)"
      using e True by (auto simp: nth_list_update)
    with r l st True show ?thesis by (subst raise_update.simps) simp
  next
    case False
    then show ?thesis by (subst raise_update.simps) auto
  qed
qed

lemma splice_links_spec:
  assumes "\<And>j. i \<le> j \<Longrightarrow> j \<le> n \<Longrightarrow>
             j < length upd \<and> upd ! j = Some (p j) \<and> j < height h (p j) \<and> p j \<noteq> nw \<and>
             j < height h nw"
  shows "\<exists>h'. splice_links h upd nw i n = Some h' \<and> length h' = length h \<and>
           (\<forall>b. height h' b = height h b) \<and> (\<forall>b. value_at h' b = value_at h b) \<and>
           (\<forall>b j. link h' b j =
              (if i \<le> j \<and> j \<le> n \<and> b = nw then link h (p j) j
               else if i \<le> j \<and> j \<le> n \<and> b = p j then Some (Some nw)
               else link h b j))"
  using assms
proof (induction h upd nw i n rule: splice_links.induct)
  case (1 h update new_node i new_level)
  show ?case
  proof (cases "i \<le> new_level")
    case False
    then show ?thesis by (subst splice_links.simps) auto
  next
    case True
    from "1.prems" [of i] True
    have ld: "load update i = Some (Some (p i))" and hp: "i < height h (p i)"
      and ne: "p i \<noteq> new_node" and hn: "i < height h new_node"
      by (auto simp: load_def)
    from hp obtain q where q: "link h (p i) i = Some q"
      using link_defined_iff by blast
    from hn obtain h1 where h1: "set_link h new_node i q = Some h1"
      using set_link_defined by blast
    have "i < height h1 (p i)" using hp set_link_height [OF h1] by simp
    then obtain h2 where h2: "set_link h1 (p i) i (Some new_node) = Some h2"
      using set_link_defined by blast
    have hts: "\<And>b. height h2 b = height h b"
      using set_link_height [OF h1] set_link_height [OF h2] by simp
    have vals: "\<And>b. value_at h2 b = value_at h b"
      using set_link_value [OF h1] set_link_value [OF h2] by simp
    have len: "length h2 = length h"
      using set_link_length [OF h1] set_link_length [OF h2] by simp
    have lk: "\<And>b j. link h2 b j =
        (if b = p i \<and> j = i then Some (Some new_node)
         else if b = new_node \<and> j = i then Some q else link h b j)"
      using set_link_link [OF h1] set_link_link [OF h2] by simp
    have "\<exists>h'. splice_links h2 update new_node (i + 1) new_level = Some h' \<and>
           length h' = length h2 \<and>
           (\<forall>b. height h' b = height h2 b) \<and> (\<forall>b. value_at h' b = value_at h2 b) \<and>
           (\<forall>b j. link h' b j =
              (if i + 1 \<le> j \<and> j \<le> new_level \<and> b = new_node then link h2 (p j) j
               else if i + 1 \<le> j \<and> j \<le> new_level \<and> b = p j then Some (Some new_node)
               else link h2 b j))"
      using True ld q h1 h2 "1.prems" hts by (intro "1.IH") auto
    then obtain h' where r: "splice_links h2 update new_node (i + 1) new_level = Some h'"
      and l': "length h' = length h2"
      and ht': "\<forall>b. height h' b = height h2 b"
      and v': "\<forall>b. value_at h' b = value_at h2 b"
      and lk': "\<forall>b j. link h' b j =
              (if i + 1 \<le> j \<and> j \<le> new_level \<and> b = new_node then link h2 (p j) j
               else if i + 1 \<le> j \<and> j \<le> new_level \<and> b = p j then Some (Some new_node)
               else link h2 b j)"
      by blast
    have "\<forall>b j. link h' b j =
              (if i \<le> j \<and> j \<le> new_level \<and> b = new_node then link h (p j) j
               else if i \<le> j \<and> j \<le> new_level \<and> b = p j then Some (Some new_node)
               else link h b j)"
    proof (intro allI)
      fix b j
      show "link h' b j =
              (if i \<le> j \<and> j \<le> new_level \<and> b = new_node then link h (p j) j
               else if i \<le> j \<and> j \<le> new_level \<and> b = p j then Some (Some new_node)
               else link h b j)"
      proof (cases "j = i")
        case True
        then show ?thesis using lk' lk q ne \<open>i \<le> new_level\<close> by simp
      next
        case False
        then show ?thesis using lk' lk by auto
      qed
    qed
    with r l' ht' v' hts vals len True ld q h1 h2 show ?thesis
      by (subst splice_links.simps) simp
  qed
qed

lemma unlink_spec:
  assumes "\<And>j. i \<le> j \<Longrightarrow> j < k \<Longrightarrow>
             j < length upd \<and> upd ! j = Some (p j) \<and> link h (p j) j = Some (Some cur) \<and>
             j < height h cur"
    and "k \<le> level \<Longrightarrow>
           k < length upd \<and> upd ! k = Some (p k) \<and>
           (\<exists>q. link h (p k) k = Some q \<and> q \<noteq> Some cur)"
    and "i \<le> k" and "k \<le> level + 1"
  shows "\<exists>h'. unlink h upd cur i level = Some h' \<and> length h' = length h \<and>
           (\<forall>b. height h' b = height h b) \<and> (\<forall>b. value_at h' b = value_at h b) \<and>
           (\<forall>b j. link h' b j =
              (if i \<le> j \<and> j < k \<and> b = p j then link h cur j else link h b j))"
  using assms
proof (induction h upd cur i level rule: unlink.induct)
  case (1 h update cur i level)
  show ?case
  proof (cases "i < k")
    case False
    with "1.prems"(3) have ik: "i = k" by simp
    show ?thesis
    proof (cases "k \<le> level")
      case True
      with "1.prems"(2) ik obtain q where "load update i = Some (Some (p i))"
        and "link h (p i) i = Some q" and "q \<noteq> Some cur"
        by (auto simp: load_def)
      with True ik show ?thesis by (subst unlink.simps) auto
    next
      case False
      with ik show ?thesis by (subst unlink.simps) auto
    qed
  next
    case True
    with "1.prems"(4) have il: "i \<le> level" by simp
    from "1.prems"(1) [of i] True
    have ld: "load update i = Some (Some (p i))"
      and lp: "link h (p i) i = Some (Some cur)" and hc: "i < height h cur"
      by (auto simp: load_def)
    from hc obtain r where r: "link h cur i = Some r"
      using link_defined_iff by blast
    have "i < height h (p i)" using lp link_defined_iff by blast
    then obtain h1 where h1: "set_link h (p i) i r = Some h1"
      using set_link_defined by blast
    note hts = set_link_height [OF h1] and vals = set_link_value [OF h1]
      and len = set_link_length [OF h1] and lk = set_link_link [OF h1]
    have "\<exists>h'. unlink h1 update cur (i + 1) level = Some h' \<and> length h' = length h1 \<and>
           (\<forall>b. height h' b = height h1 b) \<and> (\<forall>b. value_at h' b = value_at h1 b) \<and>
           (\<forall>b j. link h' b j =
              (if i + 1 \<le> j \<and> j < k \<and> b = p j then link h1 cur j else link h1 b j))"
    proof (rule "1.IH" [OF il ld refl lp _ r h1])
      show "\<not> Some cur \<noteq> Some cur" by simp
      show "i + 1 \<le> k" using True by simp
      show "k \<le> level + 1" by (rule "1.prems"(4))
      show "j < length update \<and> update ! j = Some (p j) \<and>
            link h1 (p j) j = Some (Some cur) \<and> j < height h1 cur"
        if "i + 1 \<le> j" and "j < k" for j
        using "1.prems"(1) [of j] that lk hts by simp
      show "k < length update \<and> update ! k = Some (p k) \<and>
            (\<exists>q. link h1 (p k) k = Some q \<and> q \<noteq> Some cur)"
        if "k \<le> level"
        using "1.prems"(2) that lk True by simp
    qed
    then obtain h' where u: "unlink h1 update cur (i + 1) level = Some h'"
      and l': "length h' = length h1"
      and ht': "\<forall>b. height h' b = height h1 b"
      and v': "\<forall>b. value_at h' b = value_at h1 b"
      and lk': "\<forall>b j. link h' b j =
              (if i + 1 \<le> j \<and> j < k \<and> b = p j then link h1 cur j else link h1 b j)"
      by blast
    have "\<forall>b j. link h' b j =
              (if i \<le> j \<and> j < k \<and> b = p j then link h cur j else link h b j)"
    proof (intro allI)
      fix b j
      show "link h' b j = (if i \<le> j \<and> j < k \<and> b = p j then link h cur j else link h b j)"
      proof (cases "j = i")
        case True
        then show ?thesis using lk' lk r \<open>i < k\<close> by simp
      next
        case False
        then show ?thesis using lk' lk by auto
      qed
    qed
    with u l' ht' v' hts vals len il ld lp r h1 show ?thesis
      by (subst unlink.simps) simp
  qed
qed

lemma lower_level_spec:
  "(\<And>j. j \<le> l \<Longrightarrow> j < height h a) \<Longrightarrow>
   \<exists>l'. lower_level h a l = Some l' \<and> l' \<le> l \<and>
     (\<forall>j. l' < j \<and> j \<le> l \<longrightarrow> link h a j = Some None)"
proof (induction l)
  case 0
  then show ?case by simp
next
  case (Suc l)
  from Suc.prems [of "Suc l"] obtain q where q: "link h a (Suc l) = Some q"
    using link_defined_iff by blast
  show ?case
  proof (cases q)
    case None
    from Suc.IH Suc.prems obtain l' where "lower_level h a l = Some l'" and "l' \<le> l"
      and "\<forall>j. l' < j \<and> j \<le> l \<longrightarrow> link h a j = Some None"
      by (meson le_Suc_eq)
    with q None show ?thesis by (auto simp: le_Suc_eq)
  next
    case (Some c)
    with q show ?thesis by auto
  qed
qed

subsection \<open>Iteration\<close>

lemma traverse_path:
  "path h 0 a ns \<Longrightarrow> link h a 0 = Some q \<Longrightarrow>
   traverse h \<lparr>current = q\<rparr> = Some (map (value_at h) ns)"
proof (induction ns arbitrary: a q)
  case Nil
  then show ?case
    by (subst traverse.simps) (simp add: Iterator_neq_def Iterator_eq_def SkipList_end_def)
next
  case (Cons b bs)
  from Cons.prems have q: "q = Some b" and p: "path h 0 b bs" by auto
  from p have "0 < height h b" by (rule path_height) simp
  then obtain r where r: "link h b 0 = Some r" using link_defined_iff by blast
  from \<open>0 < height h b\<close> have "b < length h" by (rule height_valid)
  then have n: "node h b = Some (h ! b)" by (simp add: node_def)
  from Cons.IH [OF p r] q r n show ?case
    by (subst traverse.simps)
      (simp add: Iterator_neq_def Iterator_eq_def SkipList_end_def Iterator_deref_def
        Iterator_incr_def value_at_def)
qed

lemma path_link_last:
  "path h i a (xs @ ys) \<Longrightarrow>
   link h (last (a # xs)) i = Some (case ys of [] \<Rightarrow> None | c # _ \<Rightarrow> Some c)"
proof (induction xs arbitrary: a)
  case Nil
  then show ?case by (cases ys) auto
next
  case (Cons x xs)
  then show ?case by simp
qed

subsection \<open>Well-formed skip lists\<close>

lemma skiplistE:
  assumes "skiplist R h s ns"
  obtains hd_node where "head s = Some hd_node" and "height h hd_node = MAX_LEVEL + 1"
    and "hd_node \<notin> set ns" and "distinct ns" and "current_level s \<le> MAX_LEVEL"
    and "size_m s = length ns"
    and "\<And>a. a \<in> set ns \<Longrightarrow> 0 < height h a \<and> height h a \<le> current_level s + 1"
    and "sorted_wrt (\<lambda>a b. R (value_at h a) (value_at h b)) ns"
    and "\<And>i. i \<le> MAX_LEVEL \<Longrightarrow> path h i hd_node (filter (\<lambda>a. i < height h a) ns)"
  using assms unfolding skiplist_def by (auto split: option.splits)

lemma filter_level0:
  assumes "\<And>a. a \<in> set ns \<Longrightarrow> 0 < height h a" and "set xs \<subseteq> set ns"
  shows "filter (\<lambda>a. 0 < height h a) xs = xs"
  using assms by (auto simp: filter_id_conv)

lemma iterate_skiplist:
  assumes "skiplist R h s ns"
  shows "iterate h s = Some (map (value_at h) ns)"
proof -
  from assms obtain hd_node where hd: "head s = Some hd_node"
    and pos: "\<And>a. a \<in> set ns \<Longrightarrow> 0 < height h a \<and> height h a \<le> current_level s + 1"
    and paths: "\<And>i. i \<le> MAX_LEVEL \<Longrightarrow> path h i hd_node (filter (\<lambda>a. i < height h a) ns)"
    by (rule skiplistE) blast
  have "filter (\<lambda>a. 0 < height h a) ns = ns"
    using pos by (intro filter_level0 [of ns]) auto
  with paths [of 0] have p: "path h 0 hd_node ns" by simp
  then have "0 < height h hd_node" by (rule path_height) simp
  then obtain q where q: "link h hd_node 0 = Some q" using link_defined_iff by blast
  from traverse_path [OF p q] hd q show ?thesis
    by (simp add: iterate_def SkipList_begin_def)
qed

lemma pred_link:
  assumes "path h i hd_node (filter (\<lambda>a. i < height h a) ns)"
  shows "link h (pred_at lt h v hd_node ns i) i =
         Some (case filter (\<lambda>a. i < height h a) (dropWhile (\<lambda>b. lt (value_at h b) v) ns) of
                 [] \<Rightarrow> None | c # _ \<Rightarrow> Some c)"
proof -
  let ?P = "\<lambda>b. lt (value_at h b) v" and ?Q = "\<lambda>a. i < height h a"
  have "filter ?Q ns = filter ?Q (takeWhile ?P ns) @ filter ?Q (dropWhile ?P ns)"
    by (metis filter_append takeWhile_dropWhile_id)
  with assms have "path h i hd_node (filter ?Q (takeWhile ?P ns) @ filter ?Q (dropWhile ?P ns))"
    by simp
  then show ?thesis unfolding pred_at_def by (rule path_link_last)
qed

lemma pred_at_top:
  assumes "\<And>a. a \<in> set ns \<Longrightarrow> height h a \<le> l + 1" and "l < j"
  shows "pred_at lt h v hd_node ns j = hd_node"
proof -
  have "\<not> j < height h a" if "a \<in> set ns" for a
    using assms(1) [OF that] assms(2) by simp
  then have "filter (\<lambda>a. j < height h a) (takeWhile (\<lambda>b. lt (value_at h b) v) ns) = []"
    by (auto simp: filter_empty_conv dest!: set_takeWhileD)
  then show ?thesis by (simp add: pred_at_def)
qed

lemma search_spec:
  assumes sk: "skiplist R h s ns" and down: "downward R lt"
    and hd: "head s = Some hd_node"
  shows "\<exists>upd. descend lt h v (current_level s) hd_node (replicate (MAX_LEVEL + 1) None) =
                  Some (pred_at lt h v hd_node ns 0, upd) \<and>
           length upd = MAX_LEVEL + 1 \<and>
           (\<forall>j\<le>current_level s. upd ! j = Some (pred_at lt h v hd_node ns j))"
    and "descend_find lt h v (current_level s) hd_node = Some (pred_at lt h v hd_node ns 0)"
    and "link h (pred_at lt h v hd_node ns 0) 0 =
           Some (case dropWhile (\<lambda>b. lt (value_at h b) v) ns of [] \<Rightarrow> None | c # _ \<Rightarrow> Some c)"
proof -
  from sk hd have lv: "current_level s \<le> MAX_LEVEL"
    and pos: "\<And>a. a \<in> set ns \<Longrightarrow> 0 < height h a \<and> height h a \<le> current_level s + 1"
    and sorted: "sorted_wrt (\<lambda>a b. R (value_at h a) (value_at h b)) ns"
    and paths: "\<And>i. i \<le> MAX_LEVEL \<Longrightarrow> path h i hd_node (filter (\<lambda>a. i < height h a) ns)"
    by (auto elim!: skiplistE)
  have p: "\<And>j. j \<le> current_level s \<Longrightarrow> path h j hd_node (filter (\<lambda>a. j < height h a) ns)"
    using paths lv by simp
  have "\<exists>upd'. descend lt h v (current_level s) hd_node (replicate (MAX_LEVEL + 1) None) =
                  Some (pred_at lt h v hd_node ns 0, upd') \<and>
           length upd' = length (replicate (MAX_LEVEL + 1) (None :: ptr)) \<and>
           (\<forall>j\<le>current_level s. upd' ! j = Some (pred_at lt h v hd_node ns j)) \<and>
           (\<forall>j>current_level s. upd' ! j = replicate (MAX_LEVEL + 1) None ! j)"
    using sorted down p lv by (intro descend_spec) auto
  then show "\<exists>upd. descend lt h v (current_level s) hd_node (replicate (MAX_LEVEL + 1) None) =
                  Some (pred_at lt h v hd_node ns 0, upd) \<and>
           length upd = MAX_LEVEL + 1 \<and>
           (\<forall>j\<le>current_level s. upd ! j = Some (pred_at lt h v hd_node ns j))"
    by auto
  show "descend_find lt h v (current_level s) hd_node = Some (pred_at lt h v hd_node ns 0)"
    using sorted down p by (intro descend_find_spec) auto
  have "filter (\<lambda>a. 0 < height h a) (dropWhile (\<lambda>b. lt (value_at h b) v) ns) =
        dropWhile (\<lambda>b. lt (value_at h b) v) ns"
    using pos by (intro filter_level0 [of ns]) (auto dest: set_dropWhileD)
  with pred_link [OF paths [of 0], of lt v]
  show "link h (pred_at lt h v hd_node ns 0) 0 =
           Some (case dropWhile (\<lambda>b. lt (value_at h b) v) ns of [] \<Rightarrow> None | c # _ \<Rightarrow> Some c)"
    by simp
qed

lemma skiplist_node:
  assumes "skiplist R h s ns" and "a \<in> set ns"
  shows "node h a = Some (h ! a)" and "a < length h"
proof -
  from assms have "0 < height h a" by (auto elim!: skiplistE)
  then show "a < length h" by (rule height_valid)
  then show "node h a = Some (h ! a)" by (simp add: node_def)
qed

text \<open>The result of \<open>find\<close>, in terms of the nodes.\<close>

lemma find_spec:
  assumes sk: "skiplist R h s ns" and down: "downward R lt"
  shows "SkipList_find lt eq v h s =
     Some \<lparr>current = (case dropWhile (\<lambda>b. lt (value_at h b) v) ns of
                        [] \<Rightarrow> None
                      | c # _ \<Rightarrow> if eq (value_at h c) v then Some c else None)\<rparr>"
proof -
  from sk obtain hd_node where hd: "head s = Some hd_node" by (rule skiplistE) blast
  note s = search_spec(2,3) [OF sk down hd, where v = v]
  show ?thesis
  proof (cases "dropWhile (\<lambda>b. lt (value_at h b) v) ns")
    case Nil
    from s hd show ?thesis by (simp add: SkipList_find_def Nil)
  next
    case (Cons c cs)
    then have "c \<in> set ns" by (metis list.set_intros(1) set_dropWhileD)
    from skiplist_node(1) [OF sk this] s hd show ?thesis
      by (simp add: SkipList_find_def value_at_def [symmetric] Cons)
  qed
qed

subsection \<open>Linking a new node\<close>

lemma skiplist_old:
  assumes "skiplist R h s ns" and "head s = Some hd_node"
  shows "hd_node < length h" and "\<And>a. a \<in> set ns \<Longrightarrow> a < length h"
    and "pred_at lt h v hd_node ns i < length h"
    and "i \<le> MAX_LEVEL \<Longrightarrow> i < height h (pred_at lt h v hd_node ns i)"
proof -
  from assms have hh: "height h hd_node = MAX_LEVEL + 1"
    and pos: "\<And>a. a \<in> set ns \<Longrightarrow> 0 < height h a"
    by (auto elim!: skiplistE)
  from hh show 1: "hd_node < length h" by (intro height_valid [of 0]) simp
  show 2: "a < length h" if "a \<in> set ns" for a
    using pos [OF that] by (rule height_valid)
  have m: "pred_at lt h v hd_node ns i \<in>
      set (hd_node # filter (\<lambda>a. i < height h a) (takeWhile (\<lambda>b. lt (value_at h b) v) ns))"
    by (rule pred_at_mem) simp
  then show "pred_at lt h v hd_node ns i < length h"
    using 1 2 by (auto dest: set_takeWhileD)
  show "i < height h (pred_at lt h v hd_node ns i)" if "i \<le> MAX_LEVEL"
    using m hh that by auto
qed

lemma skiplist_splice:
  fixes h :: "'a heap" and v :: 'a
  defines "nw \<equiv> length h"
  assumes sk: "skiplist R h s ns"
    and hd: "head s = Some hd_node"
    and n: "n \<le> MAX_LEVEL"
    and nd: "val nd = v" "length (forward nd) = n + 1"
    and len: "length h2 = length (h @ [nd])"
    and hts: "\<forall>b. height h2 b = height (h @ [nd]) b"
    and vals: "\<forall>b. value_at h2 b = value_at (h @ [nd]) b"
    and links: "\<forall>b j. link h2 b j =
        (if 0 \<le> j \<and> j \<le> n \<and> b = nw then link (h @ [nd]) (pred_at lt h v hd_node ns j) j
         else if 0 \<le> j \<and> j \<le> n \<and> b = pred_at lt h v hd_node ns j then Some (Some nw)
         else link (h @ [nd]) b j)"
    and below: "\<And>a. a \<in> set (takeWhile (\<lambda>b. lt (value_at h b) v) ns) \<Longrightarrow> R (value_at h a) v"
    and above: "\<And>b. b \<in> set (dropWhile (\<lambda>b. lt (value_at h b) v) ns) \<Longrightarrow> R v (value_at h b)"
    and s': "head s' = head s" "current_level s' = max (current_level s) n"
      "size_m s' = size_m s + 1"
  shows "skiplist R h2 s' (takeWhile (\<lambda>b. lt (value_at h b) v) ns @ nw #
                            dropWhile (\<lambda>b. lt (value_at h b) v) ns)"
proof -
  let ?P = "\<lambda>b. lt (value_at h b) v"
  define lows where "lows = takeWhile ?P ns"
  define highs where "highs = dropWhile ?P ns"
  let ?p = "pred_at lt h v hd_node ns"
  from sk hd have hh: "height h hd_node = MAX_LEVEL + 1"
    and hdn: "hd_node \<notin> set ns" and dist: "distinct ns"
    and lv: "current_level s \<le> MAX_LEVEL" and sz: "size_m s = length ns"
    and pos: "\<And>a. a \<in> set ns \<Longrightarrow> 0 < height h a \<and> height h a \<le> current_level s + 1"
    and sorted: "sorted_wrt (\<lambda>a b. R (value_at h a) (value_at h b)) ns"
    and paths: "\<And>i. i \<le> MAX_LEVEL \<Longrightarrow> path h i hd_node (filter (\<lambda>a. i < height h a) ns)"
    by (auto elim!: skiplistE)
  note old = skiplist_old [OF sk hd]
  have ns: "ns = lows @ highs" by (simp add: lows_def highs_def)
  have sets: "set lows \<subseteq> set ns" "set highs \<subseteq> set ns"
    by (auto simp: lows_def highs_def dest: set_takeWhileD set_dropWhileD)
  have nw_new: "nw \<notin> set ns" "nw \<noteq> hd_node"
    using old(1,2) by (auto simp: nw_def)
  have ht_old: "height h2 b = height h b" if "b < length h" for b
    using hts that by (simp add: append_height)
  have ht_new: "height h2 nw = n + 1"
    using hts nd by (simp add: nw_def append_new_height)
  have val_old: "value_at h2 b = value_at h b" if "b < length h" for b
    using vals that by (simp add: append_value)
  have val_new: "value_at h2 nw = v"
    using vals nd by (simp add: nw_def append_new_value)
  have lk_old: "link (h @ [nd]) b j = link h b j" if "b < length h" for b j
    using that by (intro append_link) simp
  have p_ne: "?p j \<noteq> nw" for j
    using old(3) [of lt v j] by (simp add: nw_def)

  have c1: "height h2 hd_node = MAX_LEVEL + 1"
    using ht_old [OF old(1)] hh by simp
  have c2: "hd_node \<notin> set (lows @ nw # highs)"
    using hdn nw_new sets by auto
  have "distinct (lows @ highs)" using dist ns by simp
  then have c3: "distinct (lows @ nw # highs)"
    using nw_new sets by auto
  have c4: "current_level s' \<le> MAX_LEVEL"
    using s' lv n by simp
  have "length (lows @ highs) = length ns" using ns by simp
  then have c5: "size_m s' = length (lows @ nw # highs)"
    using s' sz by simp
  have c6: "0 < height h2 a \<and> height h2 a \<le> current_level s' + 1"
    if "a \<in> set (lows @ nw # highs)" for a
  proof (cases "a = nw")
    case True
    then show ?thesis using ht_new s' by simp
  next
    case False
    with that sets have a: "a \<in> set ns" by auto
    with pos [OF a] ht_old [OF old(2) [OF a]] s' show ?thesis by auto
  qed
  have "sorted_wrt (\<lambda>a b. R (value_at h2 a) (value_at h2 b)) ns"
    using sorted
  proof (rule sorted_wrt_mono_rel [rotated])
    fix x y assume "x \<in> set ns" "y \<in> set ns" "R (value_at h x) (value_at h y)"
    then show "R (value_at h2 x) (value_at h2 y)"
      using val_old old(2) by simp
  qed
  then have "sorted_wrt (\<lambda>a b. R (value_at h2 a) (value_at h2 b)) (lows @ highs)"
    using ns by simp
  moreover have "R (value_at h2 x) (value_at h2 nw)" if "x \<in> set lows" for x
  proof -
    from that sets have "x \<in> set ns" by auto
    with below [OF that [unfolded lows_def]] show ?thesis
      using val_old old(2) val_new by simp
  qed
  moreover have "R (value_at h2 nw) (value_at h2 y)" if "y \<in> set highs" for y
  proof -
    from that sets have "y \<in> set ns" by auto
    with above [OF that [unfolded highs_def]] show ?thesis
      using val_old old(2) val_new by simp
  qed
  ultimately have c7: "sorted_wrt (\<lambda>a b. R (value_at h2 a) (value_at h2 b)) (lows @ nw # highs)"
    unfolding sorted_wrt_append by auto
  have c8: "path h2 i hd_node (filter (\<lambda>a. i < height h2 a) (lows @ nw # highs))"
    if i: "i \<le> MAX_LEVEL" for i
  proof -
    let ?Q = "\<lambda>a. i < height h a"
    have fl: "filter (\<lambda>a. i < height h2 a) lows = filter ?Q lows"
      using sets ht_old old(2) by (intro filter_cong) auto
    have fh: "filter (\<lambda>a. i < height h2 a) highs = filter ?Q highs"
      using sets ht_old old(2) by (intro filter_cong) auto
    have split: "filter ?Q ns = filter ?Q lows @ filter ?Q highs"
      using ns by (metis filter_append)
    have p: "path h i hd_node (filter ?Q lows @ filter ?Q highs)"
      using paths [OF i] split by simp
    show ?thesis
    proof (cases "i \<le> n")
      case True
      have "path h2 i hd_node (filter ?Q lows @ nw # filter ?Q highs)"
        using p
      proof (rule path_splice)
        show "distinct (hd_node # filter ?Q lows @ filter ?Q highs)"
          using dist hdn split [symmetric] by simp
        show "nw \<notin> set (hd_node # filter ?Q lows @ filter ?Q highs)"
          using nw_new split [symmetric] by simp
        have l: "last (hd_node # filter ?Q lows) = ?p i"
          by (simp add: pred_at_def lows_def)
        show "link h2 (last (hd_node # filter ?Q lows)) i = Some (Some nw)"
          unfolding l using links True p_ne by simp
        show "link h2 nw i = link h (last (hd_node # filter ?Q lows)) i"
          unfolding l using links True lk_old [OF old(3)] by simp
        show "link h2 b i = link h b i"
          if "b \<noteq> nw" and "b \<noteq> last (hd_node # filter ?Q lows)" for b
          using that links unfolding l by (simp add: append_link nw_def)
      qed
      with True fl fh ht_new show ?thesis by simp
    next
      case False
      have "path h2 i hd_node (filter ?Q ns) = path h i hd_node (filter ?Q ns)"
      proof (rule path_cong)
        fix b assume "b \<in> set (hd_node # filter ?Q ns)"
        then have "b < length h" using old(1,2) by auto
        then show "link h2 b i = link h b i"
          using links False by (simp add: append_link)
      qed
      with paths [OF i] False fl fh ht_new split show ?thesis by simp
    qed
  qed
  have "skiplist R h2 s' (lows @ nw # highs)"
    unfolding skiplist_def using hd s'(1) c1 c2 c3 c4 c5 c6 c7 c8 by simp
  then show ?thesis by (simp add: lows_def highs_def)
qed

subsection \<open>\<open>insert\<close>\<close>

lemma insert_rest_present:
  "node h c = Some n \<Longrightarrow> eq (val n) v \<Longrightarrow>
   insert_rest eq mk mem v h s upd (Some c) = Some (Inr (), h, s)"
  by (simp add: insert_rest_def)

lemma insert_rest_absent:
  fixes h :: "'a heap"
  assumes sk: "skiplist R h s ns" and hd: "head s = Some hd_node"
    and len: "length upd = MAX_LEVEL + 1"
    and upd: "\<forall>j\<le>current_level s. upd ! j = Some (pred_at lt h v hd_node ns j)"
    and test: "cur = None \<or> (\<exists>c n. cur = Some c \<and> node h c = Some n \<and> \<not> eq (val n) v)"
    and mk: "\<And>l. val (mk v l) = v \<and> length (forward (mk v l)) = l + 1"
  shows "\<exists>s'. insert_rest eq mk False v h s upd cur = Some (Inl bad_alloc, h, s') \<and>
           head s' = head s \<and> size_m s' = size_m s \<and>
           current_level s' = max (current_level s) (fst (random_level (rng s))) \<and>
           rng s' = snd (random_level (rng s))"
    and "\<exists>h' s'. insert_rest eq mk True v h s upd cur = Some (Inr (), h', s') \<and>
           ((\<forall>a\<in>set (takeWhile (\<lambda>b. lt (value_at h b) v) ns). R (value_at h a) v) \<and>
            (\<forall>b\<in>set (dropWhile (\<lambda>b. lt (value_at h b) v) ns). R v (value_at h b)) \<longrightarrow>
            skiplist R h' s' (takeWhile (\<lambda>b. lt (value_at h b) v) ns @ length h #
                                 dropWhile (\<lambda>b. lt (value_at h b) v) ns)) \<and>
           length h' = length h + 1 \<and> value_at h' (length h) = v \<and>
           (\<forall>b<length h. value_at h' b = value_at h b) \<and>
           (\<forall>b<length h. height h' b = height h b) \<and>
           (\<forall>b j. b < length h \<longrightarrow> b \<notin> set (hd_node # ns) \<longrightarrow> link h' b j = link h b j) \<and>
           size_m s' = size_m s + 1 \<and> rng s' = snd (random_level (rng s)) \<and>
           head s' = head s"
proof -
  let ?p = "pred_at lt h v hd_node ns"
  obtain new_level g where rl: "random_level (rng s) = (new_level, g)"
    by (cases "random_level (rng s)")
  have nl: "new_level \<le> MAX_LEVEL"
    using random_level_le [of "rng s"] rl by simp
  from sk hd have lv: "current_level s \<le> MAX_LEVEL"
    and pos: "\<And>a. a \<in> set ns \<Longrightarrow> 0 < height h a \<and> height h a \<le> current_level s + 1"
    by (auto elim!: skiplistE)
  note old = skiplist_old [OF sk hd]
  have tst: "(case cur of None \<Rightarrow> Some True
             | Some c \<Rightarrow> (case node h c of None \<Rightarrow> None | Some n \<Rightarrow> Some (\<not> eq (val n) v))) =
             Some True"
    using test by auto
  have "\<exists>upd' s2.
      (if new_level > current_level (s\<lparr>rng := g\<rparr>)
       then (case raise_update upd (head (s\<lparr>rng := g\<rparr>)) (current_level (s\<lparr>rng := g\<rparr>) + 1)
                    new_level of
               None \<Rightarrow> None
             | Some u \<Rightarrow> Some (u, s\<lparr>rng := g, current_level := new_level\<rparr>))
       else Some (upd, s\<lparr>rng := g\<rparr>)) = Some (upd', s2) \<and>
      length upd' = MAX_LEVEL + 1 \<and> (\<forall>j\<le>new_level. upd' ! j = Some (?p j)) \<and>
      head s2 = head s \<and> size_m s2 = size_m s \<and> rng s2 = g \<and>
      current_level s2 = max (current_level s) new_level"
  proof (cases "new_level > current_level s")
    case False
    then show ?thesis using len upd by (auto simp: max_def)
  next
    case True
    from raise_update_spec [of new_level upd "Some hd_node" "current_level s + 1"] nl len
    obtain upd' where r: "raise_update upd (Some hd_node) (current_level s + 1) new_level = Some upd'"
      and l: "length upd' = length upd"
      and e: "\<forall>j<length upd. upd' ! j =
                (if current_level s + 1 \<le> j \<and> j \<le> new_level then Some hd_node else upd ! j)"
      by auto
    have "upd' ! j = Some (?p j)" if "j \<le> new_level" for j
    proof (cases "j \<le> current_level s")
      case True
      with e upd that nl len show ?thesis by simp
    next
      case False
      then have "?p j = hd_node"
        using pos by (intro pred_at_top [of ns h "current_level s"]) auto
      with e False that nl len show ?thesis by simp
    qed
    with True r l len hd show ?thesis by (simp add: max_def)
  qed
  then obtain upd' s2 where
    st: "(if new_level > current_level (s\<lparr>rng := g\<rparr>)
       then (case raise_update upd (head (s\<lparr>rng := g\<rparr>)) (current_level (s\<lparr>rng := g\<rparr>) + 1)
                    new_level of
               None \<Rightarrow> None
             | Some u \<Rightarrow> Some (u, s\<lparr>rng := g, current_level := new_level\<rparr>))
       else Some (upd, s\<lparr>rng := g\<rparr>)) = Some (upd', s2)"
    and l': "length upd' = MAX_LEVEL + 1" and u': "\<forall>j\<le>new_level. upd' ! j = Some (?p j)"
    and s2: "head s2 = head s" "size_m s2 = size_m s" "rng s2 = g"
      "current_level s2 = max (current_level s) new_level"
    by blast
  have unf: "insert_rest eq mk mem v h s upd cur =
      (if \<not> mem then Some (Inl bad_alloc, h, s2)
       else (case splice_links (h @ [mk v new_level]) upd' (length h) 0 new_level of
               None \<Rightarrow> None
             | Some h2 \<Rightarrow> Some (Inr (), h2, s2\<lparr>size_m := size_m s2 + 1\<rparr>)))" for mem
    unfolding insert_rest_def tst using rl st by (simp add: make_shared_def)
  show "\<exists>s'. insert_rest eq mk False v h s upd cur = Some (Inl bad_alloc, h, s') \<and>
           head s' = head s \<and> size_m s' = size_m s \<and>
           current_level s' = max (current_level s) (fst (random_level (rng s))) \<and>
           rng s' = snd (random_level (rng s))"
    using unf [of False] s2 rl by simp
  let ?h1 = "h @ [mk v new_level]"
  have "\<exists>h'. splice_links ?h1 upd' (length h) 0 new_level = Some h' \<and> length h' = length ?h1 \<and>
           (\<forall>b. height h' b = height ?h1 b) \<and> (\<forall>b. value_at h' b = value_at ?h1 b) \<and>
           (\<forall>b j. link h' b j =
              (if 0 \<le> j \<and> j \<le> new_level \<and> b = length h then link ?h1 (?p j) j
               else if 0 \<le> j \<and> j \<le> new_level \<and> b = ?p j then Some (Some (length h))
               else link ?h1 b j))"
  proof (rule splice_links_spec)
    fix j assume j: "0 \<le> j" "j \<le> new_level"
    then have "j \<le> MAX_LEVEL" using nl by simp
    from old(4) [OF this, of lt v] old(3) [of lt v j]
    have "j < height ?h1 (?p j)" and "?p j \<noteq> length h"
      by (simp_all add: append_height)
    moreover have "j < height ?h1 (length h)"
      using j mk by (simp add: append_new_height)
    ultimately show "j < length upd' \<and> upd' ! j = Some (?p j) \<and> j < height ?h1 (?p j) \<and>
        ?p j \<noteq> length h \<and> j < height ?h1 (length h)"
      using u' l' j nl by simp
  qed
  then obtain h' where sp: "splice_links ?h1 upd' (length h) 0 new_level = Some h'"
    and len': "length h' = length ?h1"
    and hts: "\<forall>b. height h' b = height ?h1 b"
    and vals: "\<forall>b. value_at h' b = value_at ?h1 b"
    and links: "\<forall>b j. link h' b j =
              (if 0 \<le> j \<and> j \<le> new_level \<and> b = length h then link ?h1 (?p j) j
               else if 0 \<le> j \<and> j \<le> new_level \<and> b = ?p j then Some (Some (length h))
               else link ?h1 b j)"
    by blast
  let ?s' = "s2\<lparr>size_m := size_m s2 + 1\<rparr>"
  have "skiplist R h' ?s' (takeWhile (\<lambda>b. lt (value_at h b) v) ns @ length h #
                                dropWhile (\<lambda>b. lt (value_at h b) v) ns)"
    if below: "\<forall>a\<in>set (takeWhile (\<lambda>b. lt (value_at h b) v) ns). R (value_at h a) v"
      and above: "\<forall>b\<in>set (dropWhile (\<lambda>b. lt (value_at h b) v) ns). R v (value_at h b)"
    using sk hd nl _ _ len' hts vals links below [rule_format] above [rule_format]
  proof (rule skiplist_splice)
    show "val (mk v new_level) = v" and "length (forward (mk v new_level)) = new_level + 1"
      using mk by simp_all
    show "head ?s' = head s" and "current_level ?s' = max (current_level s) new_level"
      and "size_m ?s' = size_m s + 1"
      using s2 by simp_all
  qed
  moreover have "value_at h' (length h) = v"
    using vals mk by (simp add: append_new_value)
  moreover have "\<forall>b<length h. value_at h' b = value_at h b"
    using vals by (simp add: append_value)
  moreover have "\<forall>b<length h. height h' b = height h b"
    using hts by (simp add: append_height)
  moreover have "\<forall>b j. b < length h \<longrightarrow> b \<notin> set (hd_node # ns) \<longrightarrow> link h' b j = link h b j"
  proof (intro allI impI)
    fix b j assume b: "b < length h" "b \<notin> set (hd_node # ns)"
    have "?p j \<in> set (hd_node # filter (\<lambda>a. j < height h a)
                                     (takeWhile (\<lambda>b. lt (value_at h b) v) ns))"
      by (rule pred_at_mem) simp
    then have "?p j \<in> set (hd_node # ns)" by (auto dest: set_takeWhileD)
    with b have "b \<noteq> ?p j" "b \<noteq> length h" by auto
    with links show "link h' b j = link h b j" by (simp add: append_link)
  qed
  ultimately show "\<exists>h' s'. insert_rest eq mk True v h s upd cur = Some (Inr (), h', s') \<and>
           ((\<forall>a\<in>set (takeWhile (\<lambda>b. lt (value_at h b) v) ns). R (value_at h a) v) \<and>
            (\<forall>b\<in>set (dropWhile (\<lambda>b. lt (value_at h b) v) ns). R v (value_at h b)) \<longrightarrow>
            skiplist R h' s' (takeWhile (\<lambda>b. lt (value_at h b) v) ns @ length h #
                                 dropWhile (\<lambda>b. lt (value_at h b) v) ns)) \<and>
           length h' = length h + 1 \<and> value_at h' (length h) = v \<and>
           (\<forall>b<length h. value_at h' b = value_at h b) \<and>
           (\<forall>b<length h. height h' b = height h b) \<and>
           (\<forall>b j. b < length h \<longrightarrow> b \<notin> set (hd_node # ns) \<longrightarrow> link h' b j = link h b j) \<and>
           size_m s' = size_m s + 1 \<and> rng s' = snd (random_level (rng s)) \<and>
           head s' = head s"
    using unf [of True] sp len' s2 rl by simp
qed

lemma skiplist_level:
  assumes "skiplist R h s ns" and "head s' = head s" and "size_m s' = size_m s"
    and "current_level s \<le> current_level s'" and "current_level s' \<le> MAX_LEVEL"
  shows "skiplist R h s' ns"
  using assms unfolding skiplist_def by (fastforce split: option.splits)

text \<open>
  The outcome of \<open>insert\<close> in terms of the nodes. The test that decides it is the one
  of the code: \<open>operator==\<close> on the first node whose value is not less than \<open>v\<close>.
\<close>

lemma insert_nodes:
  fixes h :: "'a heap"
  assumes sk: "skiplist R h s ns" and down: "downward R lt"
  shows "(case dropWhile (\<lambda>b. lt (value_at h b) v) ns of
            [] \<Rightarrow> False | c # _ \<Rightarrow> eq (value_at h c) v) \<Longrightarrow>
         SkipList_insert lt eq mem v h s = Some (Inr (), h, s)"
    and "\<not> (case dropWhile (\<lambda>b. lt (value_at h b) v) ns of
              [] \<Rightarrow> False | c # _ \<Rightarrow> eq (value_at h c) v) \<Longrightarrow>
         \<exists>s'. SkipList_insert lt eq False v h s = Some (Inl bad_alloc, h, s') \<and>
           head s' = head s \<and> size_m s' = size_m s \<and>
           current_level s' = max (current_level s) (fst (random_level (rng s))) \<and>
           rng s' = snd (random_level (rng s))"
    and "\<not> (case dropWhile (\<lambda>b. lt (value_at h b) v) ns of
              [] \<Rightarrow> False | c # _ \<Rightarrow> eq (value_at h c) v) \<Longrightarrow>
         \<exists>h' s'. SkipList_insert lt eq True v h s = Some (Inr (), h', s') \<and>
           ((\<forall>a\<in>set (takeWhile (\<lambda>b. lt (value_at h b) v) ns). R (value_at h a) v) \<and>
            (\<forall>b\<in>set (dropWhile (\<lambda>b. lt (value_at h b) v) ns). R v (value_at h b)) \<longrightarrow>
            skiplist R h' s' (takeWhile (\<lambda>b. lt (value_at h b) v) ns @ length h #
                                 dropWhile (\<lambda>b. lt (value_at h b) v) ns)) \<and>
           length h' = length h + 1 \<and> value_at h' (length h) = v \<and>
           (\<forall>b<length h. value_at h' b = value_at h b) \<and>
           (\<forall>b<length h. height h' b = height h b) \<and>
           (\<forall>b j. b < length h \<longrightarrow> b \<notin> set (the (head s) # ns) \<longrightarrow>
              link h' b j = link h b j) \<and>
           size_m s' = size_m s + 1 \<and> rng s' = snd (random_level (rng s)) \<and>
           head s' = head s"
proof -
  let ?hs = "dropWhile (\<lambda>b. lt (value_at h b) v) ns"
  let ?cur = "case ?hs of [] \<Rightarrow> None | c # _ \<Rightarrow> Some c"
  from sk obtain hd_node where hd: "head s = Some hd_node" by (rule skiplistE) blast
  from search_spec(1) [OF sk down hd, where v = v] obtain upd
    where d: "descend lt h v (current_level s) hd_node (replicate (MAX_LEVEL + 1) None) =
                Some (pred_at lt h v hd_node ns 0, upd)"
      and len: "length upd = MAX_LEVEL + 1"
      and upd: "\<forall>j\<le>current_level s. upd ! j = Some (pred_at lt h v hd_node ns j)"
    by blast
  note l = search_spec(3) [OF sk down hd, where v = v]
  have unf: "SkipList_insert lt eq mem v h s = insert_rest eq Node_copy mem v h s upd ?cur" for mem
    using hd d l by (simp add: SkipList_insert_def)
  have nd: "node h c = Some (h ! c) \<and> val (h ! c) = value_at h c" if "?hs = c # cs" for c cs
  proof -
    from that have "c \<in> set ns" by (metis list.set_intros(1) set_dropWhileD)
    from skiplist_node(1) [OF sk this] show ?thesis by (simp add: value_at_def)
  qed
  have mk: "val (Node_copy v l) = v \<and> length (forward (Node_copy v l)) = l + 1" for l
    by (simp add: Node_copy_def)
  {
    assume "case ?hs of [] \<Rightarrow> False | c # _ \<Rightarrow> eq (value_at h c) v"
    then obtain c cs where c: "?hs = c # cs" and e: "eq (value_at h c) v"
      by (auto split: list.splits)
    from nd [OF c] e have "insert_rest eq Node_copy mem v h s upd (Some c) = Some (Inr (), h, s)"
      by (intro insert_rest_present [of h c "h ! c"]) auto
    then show "SkipList_insert lt eq mem v h s = Some (Inr (), h, s)"
      unfolding unf c by simp
  }
  assume a: "\<not> (case ?hs of [] \<Rightarrow> False | c # _ \<Rightarrow> eq (value_at h c) v)"
  have test: "?cur = None \<or> (\<exists>c n. ?cur = Some c \<and> node h c = Some n \<and> \<not> eq (val n) v)"
  proof (cases ?hs)
    case Nil
    show ?thesis by (simp add: Nil)
  next
    case (Cons c cs)
    from a nd [OF Cons] show ?thesis by (simp add: Cons)
  qed
  note r = insert_rest_absent [where eq = eq and mk = Node_copy and v = v and cur = ?cur,
      OF sk hd len upd test mk]
  from r(1) show "\<exists>s'. SkipList_insert lt eq False v h s = Some (Inl bad_alloc, h, s') \<and>
           head s' = head s \<and> size_m s' = size_m s \<and>
           current_level s' = max (current_level s) (fst (random_level (rng s))) \<and>
           rng s' = snd (random_level (rng s))"
    unfolding unf .
  from r(2) hd show "\<exists>h' s'. SkipList_insert lt eq True v h s = Some (Inr (), h', s') \<and>
           ((\<forall>a\<in>set (takeWhile (\<lambda>b. lt (value_at h b) v) ns). R (value_at h a) v) \<and>
            (\<forall>b\<in>set (dropWhile (\<lambda>b. lt (value_at h b) v) ns). R v (value_at h b)) \<longrightarrow>
            skiplist R h' s' (takeWhile (\<lambda>b. lt (value_at h b) v) ns @ length h #
                                 dropWhile (\<lambda>b. lt (value_at h b) v) ns)) \<and>
           length h' = length h + 1 \<and> value_at h' (length h) = v \<and>
           (\<forall>b<length h. value_at h' b = value_at h b) \<and>
           (\<forall>b<length h. height h' b = height h b) \<and>
           (\<forall>b j. b < length h \<longrightarrow> b \<notin> set (the (head s) # ns) \<longrightarrow>
              link h' b j = link h b j) \<and>
           size_m s' = size_m s + 1 \<and> rng s' = snd (random_level (rng s)) \<and>
           head s' = head s"
    unfolding unf by simp
qed

subsection \<open>\<open>erase\<close>\<close>

lemma skiplist_unlink:
  fixes h :: "'a heap"
  assumes sk: "skiplist R h s ns"
    and hd: "head s = Some hd_node"
    and dw: "dropWhile (\<lambda>b. lt (value_at h b) v) ns = c # cs"
    and len: "length h' = length h"
    and hts: "\<forall>b. height h' b = height h b"
    and vals: "\<forall>b. value_at h' b = value_at h b"
    and links: "\<forall>b j. link h' b j =
        (if 0 \<le> j \<and> j < height h c \<and> b = pred_at lt h v hd_node ns j then link h c j
         else link h b j)"
    and s': "head s' = head s" "size_m s' = size_m s - 1" "current_level s' \<le> current_level s"
      "\<forall>j. current_level s' < j \<and> j \<le> current_level s \<longrightarrow> link h' hd_node j = Some None"
  shows "skiplist R h' s' (takeWhile (\<lambda>b. lt (value_at h b) v) ns @ cs)"
proof -
  let ?P = "\<lambda>b. lt (value_at h b) v"
  define lows where "lows = takeWhile ?P ns"
  let ?p = "pred_at lt h v hd_node ns"
  from sk hd have hh: "height h hd_node = MAX_LEVEL + 1"
    and hdn: "hd_node \<notin> set ns" and dist: "distinct ns"
    and lv: "current_level s \<le> MAX_LEVEL" and sz: "size_m s = length ns"
    and pos: "\<And>a. a \<in> set ns \<Longrightarrow> 0 < height h a \<and> height h a \<le> current_level s + 1"
    and sorted: "sorted_wrt (\<lambda>a b. R (value_at h a) (value_at h b)) ns"
    and paths: "\<And>i. i \<le> MAX_LEVEL \<Longrightarrow> path h i hd_node (filter (\<lambda>a. i < height h a) ns)"
    by (auto elim!: skiplistE)
  have ns: "ns = lows @ c # cs"
    unfolding lows_def dw [symmetric] by simp
  have sub: "set (lows @ cs) \<subseteq> set ns" using ns by auto
  have c1: "height h' hd_node = MAX_LEVEL + 1" using hts hh by simp
  have c2: "hd_node \<notin> set (lows @ cs)" using hdn sub by auto
  have c3: "distinct (lows @ cs)" using dist ns by simp
  have c4: "current_level s' \<le> MAX_LEVEL" using s'(3) lv by simp
  have c5: "size_m s' = length (lows @ cs)" using s'(2) sz ns by simp
  have c7: "sorted_wrt (\<lambda>a b. R (value_at h' a) (value_at h' b)) (lows @ cs)"
    using sorted vals ns by (simp add: sorted_wrt_append)
  have c8: "path h' i hd_node (filter (\<lambda>a. i < height h' a) (lows @ cs))"
    if i: "i \<le> MAX_LEVEL" for i
  proof -
    let ?Q = "\<lambda>a. i < height h a"
    have l: "last (hd_node # filter ?Q lows) = ?p i"
      by (simp add: pred_at_def lows_def)
    show ?thesis
    proof (cases "i < height h c")
      case True
      then have p: "path h i hd_node (filter ?Q lows @ c # filter ?Q cs)"
        using paths [OF i] ns by simp
      have "path h' i hd_node (filter ?Q lows @ filter ?Q cs)"
        using p
      proof (rule path_unlink)
        show "distinct (hd_node # filter ?Q lows @ c # filter ?Q cs)"
          using dist hdn ns by auto
        show "link h' (last (hd_node # filter ?Q lows)) i = link h c i"
          unfolding l using links True by simp
        show "link h' b i = link h b i" if "b \<noteq> last (hd_node # filter ?Q lows)" for b
          using that links unfolding l by simp
      qed
      then show ?thesis using hts by simp
    next
      case False
      then have "path h' i hd_node (filter ?Q (lows @ cs)) = path h i hd_node (filter ?Q (lows @ cs))"
        using links by (intro path_cong) simp
      moreover have "filter ?Q ns = filter ?Q (lows @ cs)"
        using False ns by simp
      ultimately show ?thesis using paths [OF i] hts by simp
    qed
  qed
  have c6: "0 < height h' a \<and> height h' a \<le> current_level s' + 1"
    if a: "a \<in> set (lows @ cs)" for a
  proof -
    from a sub have "a \<in> set ns" by auto
    from pos [OF this] have p0: "0 < height h a" and p1: "height h a \<le> current_level s + 1"
      by simp_all
    have "height h a \<le> current_level s' + 1"
    proof (rule ccontr)
      assume "\<not> height h a \<le> current_level s' + 1"
      then have j: "current_level s' < height h a - 1" "height h a - 1 \<le> current_level s"
        using p1 by simp_all
      let ?j = "height h a - 1"
      from j s'(4) have e: "link h' hd_node ?j = Some None" by blast
      have "?j \<le> MAX_LEVEL" using j lv by simp
      define fs where "fs = filter (\<lambda>b. ?j < height h' b) (lows @ cs)"
      from c8 [OF \<open>?j \<le> MAX_LEVEL\<close>]
      have pj: "path h' ?j hd_node fs" unfolding fs_def .
      have "a \<in> set fs"
        unfolding fs_def using a p0 hts by simp
      then obtain x xs where "fs = x # xs"
        by (cases fs) auto
      with pj have "link h' hd_node ?j = Some (Some x)" by simp
      with e show False by simp
    qed
    with p0 hts show ?thesis by simp
  qed
  have "skiplist R h' s' (lows @ cs)"
    unfolding skiplist_def using hd s'(1) c1 c2 c3 c4 c5 c6 c7 c8 by simp
  then show ?thesis by (simp add: lows_def)
qed

text \<open>The outcome of \<open>erase\<close> in terms of the nodes.\<close>

lemma erase_nodes:
  fixes h :: "'a heap"
  assumes sk: "skiplist R h s ns" and down: "downward R lt"
  shows "\<not> (case dropWhile (\<lambda>b. lt (value_at h b) v) ns of
              [] \<Rightarrow> False | c # _ \<Rightarrow> eq (value_at h c) v) \<Longrightarrow>
         SkipList_erase lt eq v h s = Some (False, h, s)"
    and "dropWhile (\<lambda>b. lt (value_at h b) v) ns = c # cs \<Longrightarrow> eq (value_at h c) v \<Longrightarrow>
         \<exists>h' s'. SkipList_erase lt eq v h s = Some (True, h', s') \<and>
           skiplist R h' s' (takeWhile (\<lambda>b. lt (value_at h b) v) ns @ cs) \<and>
           length h' = length h \<and> (\<forall>b. value_at h' b = value_at h b) \<and>
           (\<forall>b. height h' b = height h b) \<and>
           (\<forall>b j. link h' b j =
              (if 0 \<le> j \<and> j < height h c \<and> b = pred_at lt h v (the (head s)) ns j
               then link h c j else link h b j)) \<and>
           size_m s' = size_m s - 1 \<and> rng s' = rng s \<and> head s' = head s"
proof -
  let ?hs = "dropWhile (\<lambda>b. lt (value_at h b) v) ns"
  let ?cur = "case ?hs of [] \<Rightarrow> None | c # _ \<Rightarrow> Some c"
  from sk obtain hd_node where hd: "head s = Some hd_node" by (rule skiplistE) blast
  let ?p = "pred_at lt h v hd_node ns"
  from sk hd have hh: "height h hd_node = MAX_LEVEL + 1"
    and dist: "distinct ns" and lv: "current_level s \<le> MAX_LEVEL"
    and pos: "\<And>a. a \<in> set ns \<Longrightarrow> 0 < height h a \<and> height h a \<le> current_level s + 1"
    and paths: "\<And>i. i \<le> MAX_LEVEL \<Longrightarrow> path h i hd_node (filter (\<lambda>a. i < height h a) ns)"
    by (auto elim!: skiplistE)
  from search_spec(1) [OF sk down hd, where v = v] obtain upd
    where d: "descend lt h v (current_level s) hd_node (replicate (MAX_LEVEL + 1) None) =
                Some (?p 0, upd)"
      and len: "length upd = MAX_LEVEL + 1"
      and upd: "\<forall>j\<le>current_level s. upd ! j = Some (?p j)"
    by blast
  note l = search_spec(3) [OF sk down hd, where v = v]
  have nd: "node h c = Some (h ! c) \<and> val (h ! c) = value_at h c" if "?hs = c # cs" for c cs
  proof -
    from that have "c \<in> set ns" by (metis list.set_intros(1) set_dropWhileD)
    from skiplist_node(1) [OF sk this] show ?thesis by (simp add: value_at_def)
  qed
  {
    assume a: "\<not> (case ?hs of [] \<Rightarrow> False | c # _ \<Rightarrow> eq (value_at h c) v)"
    show "SkipList_erase lt eq v h s = Some (False, h, s)"
    proof (cases ?hs)
      case Nil
      from hd d l show ?thesis by (simp add: SkipList_erase_def Nil)
    next
      case (Cons c cs)
      from a hd d l nd [OF Cons] show ?thesis by (simp add: SkipList_erase_def Cons)
    qed
  }
  assume c: "?hs = c # cs" and e: "eq (value_at h c) v"
  from c have cns: "c \<in> set ns" by (metis list.set_intros(1) set_dropWhileD)
  have ccs: "c \<notin> set cs"
  proof -
    have "distinct (takeWhile (\<lambda>b. lt (value_at h b) v) ns @ ?hs)" using dist by simp
    then show ?thesis unfolding c by simp
  qed
  let ?k = "height h c"
  from pos [OF cns] have k: "0 < ?k" "?k \<le> current_level s + 1" by simp_all
  have pl: "link h (?p j) j =
         Some (case filter (\<lambda>a. j < height h a) (c # cs) of [] \<Rightarrow> None | c # _ \<Rightarrow> Some c)"
    if "j \<le> MAX_LEVEL" for j
    using pred_link [OF paths [OF that], of lt v] unfolding c .
  have "\<exists>h'. unlink h upd c 0 (current_level s) = Some h' \<and> length h' = length h \<and>
           (\<forall>b. height h' b = height h b) \<and> (\<forall>b. value_at h' b = value_at h b) \<and>
           (\<forall>b j. link h' b j =
              (if 0 \<le> j \<and> j < ?k \<and> b = ?p j then link h c j else link h b j))"
  proof (rule unlink_spec)
    show "0 \<le> ?k" by simp
    show "?k \<le> current_level s + 1" by (rule k)
    show "j < length upd \<and> upd ! j = Some (?p j) \<and> link h (?p j) j = Some (Some c) \<and> j < ?k"
      if "0 \<le> j" and "j < ?k" for j
    proof -
      from that k lv have "j \<le> current_level s" "j \<le> MAX_LEVEL" by simp_all
      with pl [of j] upd len that show ?thesis by simp
    qed
    show "?k < length upd \<and> upd ! ?k = Some (?p ?k) \<and>
          (\<exists>q. link h (?p ?k) ?k = Some q \<and> q \<noteq> Some c)"
      if "?k \<le> current_level s"
    proof -
      from that lv have km: "?k \<le> MAX_LEVEL" by simp
      have "link h (?p ?k) ?k =
              Some (case filter (\<lambda>a. ?k < height h a) cs of [] \<Rightarrow> None | d # _ \<Rightarrow> Some d)"
        using pl [OF km] by simp
      moreover have "(case filter (\<lambda>a. ?k < height h a) cs of [] \<Rightarrow> None | d # _ \<Rightarrow> Some d) \<noteq> Some c"
      proof (cases "filter (\<lambda>a. ?k < height h a) cs")
        case Nil
        then show ?thesis by simp
      next
        case (Cons d ds)
        then have "d \<in> set cs" by (metis filter_is_subset list.set_intros(1) subsetD)
        with ccs Cons show ?thesis by auto
      qed
      ultimately show ?thesis using that upd len km by simp
    qed
  qed
  then obtain h' where u: "unlink h upd c 0 (current_level s) = Some h'"
    and len': "length h' = length h"
    and hts: "\<forall>b. height h' b = height h b"
    and vals: "\<forall>b. value_at h' b = value_at h b"
    and links: "\<forall>b j. link h' b j =
              (if 0 \<le> j \<and> j < ?k \<and> b = ?p j then link h c j else link h b j)"
    by blast
  have "\<exists>l'. lower_level h' hd_node (current_level s) = Some l' \<and> l' \<le> current_level s \<and>
     (\<forall>j. l' < j \<and> j \<le> current_level s \<longrightarrow> link h' hd_node j = Some None)"
    using hts hh lv by (intro lower_level_spec) simp
  then obtain l' where ll: "lower_level h' hd_node (current_level s) = Some l'"
    and l'le: "l' \<le> current_level s"
    and l'top: "\<forall>j. l' < j \<and> j \<le> current_level s \<longrightarrow> link h' hd_node j = Some None"
    by blast
  let ?s' = "s\<lparr>current_level := l', size_m := size_m s - 1\<rparr>"
  have r: "SkipList_erase lt eq v h s = Some (True, h', ?s')"
    using hd d l nd [OF c] e u ll by (simp add: SkipList_erase_def c)
  have "skiplist R h' ?s' (takeWhile (\<lambda>b. lt (value_at h b) v) ns @ cs)"
    using sk hd c len' hts vals links
  proof (rule skiplist_unlink)
    show "head ?s' = head s" and "size_m ?s' = size_m s - 1"
      and "current_level ?s' \<le> current_level s"
      and "\<forall>j. current_level ?s' < j \<and> j \<le> current_level s \<longrightarrow> link h' hd_node j = Some None"
      using l'le l'top by simp_all
  qed
  with r len' hts vals links hd
  show "\<exists>h' s'. SkipList_erase lt eq v h s = Some (True, h', s') \<and>
           skiplist R h' s' (takeWhile (\<lambda>b. lt (value_at h b) v) ns @ cs) \<and>
           length h' = length h \<and> (\<forall>b. value_at h' b = value_at h b) \<and>
           (\<forall>b. height h' b = height h b) \<and>
           (\<forall>b j. link h' b j =
              (if 0 \<le> j \<and> j < height h c \<and> b = pred_at lt h v (the (head s)) ns j
               then link h c j else link h b j)) \<and>
           size_m s' = size_m s - 1 \<and> rng s' = rng s \<and> head s' = head s"
    by simp
qed

subsection \<open>The element type\<close>

lemma swo_irrefl: "strict_weak_order lt \<Longrightarrow> \<not> lt a a"
  by (simp add: strict_weak_order_def)

lemma swo_transp: "strict_weak_order lt \<Longrightarrow> transp lt"
  unfolding strict_weak_order_def transp_def by blast

lemma downward_lt: "transp lt \<Longrightarrow> downward lt lt"
  unfolding downward_def by (blast dest: transpD)

lemma below_lt: "\<forall>x\<in>set (takeWhile (\<lambda>x. lt x v) xs). lt x v"
  by (auto dest: set_takeWhileD)

lemma swo_equiv:
  "strict_weak_order lt \<Longrightarrow> derived_eq lt a b \<Longrightarrow> derived_eq lt b c \<Longrightarrow> derived_eq lt a c"
  unfolding strict_weak_order_def by blast

lemma found_Cons:
  assumes "dropWhile (\<lambda>x. lt x v) xs = c # cs"
  shows "found lt eq v xs = eq c v"
  unfolding found_def assms by simp

lemma found_Nil:
  assumes "dropWhile (\<lambda>x. lt x v) xs = []"
  shows "\<not> found lt eq v xs"
  unfolding found_def assms by simp

lemma found_member:
  assumes sorted: "sorted_wrt lt xs" and tr: "transp lt" and cons: "consistent_eq lt eq"
  shows "found lt eq v xs \<longleftrightarrow> (\<exists>x\<in>set xs. eq x v)"
proof
  assume "found lt eq v xs"
  then obtain c cs where "dropWhile (\<lambda>x. lt x v) xs = c # cs" and "eq c v"
    by (auto simp: found_def split: list.splits)
  then show "\<exists>x\<in>set xs. eq x v"
    by (metis list.set_intros(1) set_dropWhileD)
next
  assume "\<exists>x\<in>set xs. eq x v"
  then obtain x where x: "x \<in> set xs" and e: "eq x v" by blast
  from e cons have nlt: "\<not> lt x v" "\<not> lt v x"
    by (simp_all add: consistent_eq_def derived_eq_def)
  define hs where "hs = dropWhile (\<lambda>x. lt x v) xs"
  have xs: "xs = takeWhile (\<lambda>x. lt x v) xs @ hs" by (simp add: hs_def)
  have "x \<notin> set (takeWhile (\<lambda>x. lt x v) xs)"
    using nlt by (auto dest: set_takeWhileD)
  with x xs have xh: "x \<in> set hs" by (metis Un_iff set_append)
  then obtain c cs where hs: "hs = c # cs" by (cases hs) auto
  have "\<not> lt c v"
    using hs hd_dropWhile [of "\<lambda>x. lt x v" xs] by (simp add: hs_def)
  moreover have "\<not> lt v c"
  proof (cases "x = c")
    case True
    with nlt show ?thesis by simp
  next
    case False
    with xh hs have "x \<in> set cs" by simp
    moreover have "sorted_wrt lt (c # cs)"
      using sorted xs hs by (metis sorted_wrt_append)
    ultimately have "lt c x" by simp
    with nlt(2) show ?thesis using transpD [OF tr] by blast
  qed
  ultimately have "eq c v"
    using cons by (simp add: consistent_eq_def derived_eq_def)
  with hs show "found lt eq v xs"
    by (simp add: found_def hs_def [symmetric])
qed

lemma absent_above:
  assumes sorted: "sorted_wrt lt xs" and tr: "transp lt" and cons: "consistent_eq lt eq"
    and nf: "\<not> found lt eq v xs"
  shows "\<forall>y\<in>set (dropWhile (\<lambda>x. lt x v) xs). lt v y"
proof (cases "dropWhile (\<lambda>x. lt x v) xs")
  case Nil
  show ?thesis unfolding Nil by simp
next
  case (Cons c cs)
  have "\<not> lt c v"
    using Cons hd_dropWhile [of "\<lambda>x. lt x v" xs] by simp
  moreover from nf have "\<not> eq c v" by (simp add: found_def Cons)
  ultimately have c: "lt v c"
    using cons by (auto simp: consistent_eq_def derived_eq_def)
  have "sorted_wrt lt (takeWhile (\<lambda>x. lt x v) xs @ c # cs)"
    using sorted unfolding Cons [symmetric] by simp
  then have "\<forall>y\<in>set cs. lt c y" by (simp add: sorted_wrt_append)
  with c show ?thesis unfolding Cons using transpD [OF tr] by auto
qed

lemma found_remove:
  assumes sorted: "sorted_wrt lt xs" and swo: "strict_weak_order lt"
    and cons: "consistent_eq lt eq"
    and dw: "dropWhile (\<lambda>x. lt x v) xs = c # cs" and e: "eq c v"
  shows "takeWhile (\<lambda>x. lt x v) xs @ cs = filter (\<lambda>x. \<not> eq x v) xs"
proof -
  define ls where "ls = takeWhile (\<lambda>x. lt x v) xs"
  have xs: "xs = ls @ c # cs" unfolding ls_def dw [symmetric] by simp
  have "\<not> eq x v" if "x \<in> set ls" for x
  proof -
    from that have "lt x v" unfolding ls_def by (auto dest: set_takeWhileD)
    then show ?thesis using cons by (simp add: consistent_eq_def derived_eq_def)
  qed
  then have 1: "filter (\<lambda>x. \<not> eq x v) ls = ls" by (simp add: filter_id_conv)
  have "\<not> eq y v" if "y \<in> set cs" for y
  proof
    assume "eq y v"
    then have "derived_eq lt v y"
      using cons by (auto simp: consistent_eq_def derived_eq_def)
    moreover from e have "derived_eq lt c v"
      using cons by (simp add: consistent_eq_def)
    ultimately have "derived_eq lt c y" using swo_equiv [OF swo] by blast
    moreover have "lt c y"
      using sorted that unfolding xs by (simp add: sorted_wrt_append)
    ultimately show False by (simp add: derived_eq_def)
  qed
  then have 2: "filter (\<lambda>x. \<not> eq x v) cs = cs" by (simp add: filter_id_conv)
  show ?thesis unfolding ls_def [symmetric] unfolding xs using 1 2 e by simp
qed

subsection \<open>The operations on the sequence of values\<close>

lemma found_nodes:
  "found lt eq v (map (value_at h) ns) =
     (case dropWhile (\<lambda>b. lt (value_at h b) v) ns of
        [] \<Rightarrow> False | c # _ \<Rightarrow> eq (value_at h c) v)"
proof -
  define hs where "hs = dropWhile (\<lambda>b. lt (value_at h b) v) ns"
  have dm: "dropWhile (\<lambda>x. lt x v) (map (value_at h) ns) = map (value_at h) hs"
    by (simp add: hs_def dropWhile_map comp_def)
  show ?thesis
    unfolding found_def dm hs_def [symmetric] by (cases hs) simp_all
qed

lemma valid_iterate:
  assumes "valid R h s"
  shows "\<exists>xs. iterate h s = Some xs \<and> sorted_wrt R xs \<and> length xs = size_m s"
proof -
  from assms obtain ns where sk: "skiplist R h s ns" by (auto simp: valid_def)
  then have "sorted_wrt (\<lambda>a b. R (value_at h a) (value_at h b)) ns" and "size_m s = length ns"
    by (auto elim!: skiplistE)
  with iterate_skiplist [OF sk] show ?thesis by (simp add: sorted_wrt_map)
qed

lemma iterate_head: "head s' = head s \<Longrightarrow> iterate h s' = iterate h s"
  by (simp add: iterate_def SkipList_begin_def)

lemma find_values:
  assumes v: "valid R h s" and down: "downward R lt" and it: "iterate h s = Some xs"
  shows "\<exists>it. SkipList_find lt eq v h s = Some it \<and>
           (Iterator_eq it SkipList_end \<longleftrightarrow> \<not> found lt eq v xs) \<and>
           (found lt eq v xs \<longrightarrow>
              Iterator_deref h it = Some (Inr (hd (dropWhile (\<lambda>x. lt x v) xs))))"
proof -
  from v obtain ns where sk: "skiplist R h s ns" by (auto simp: valid_def)
  from iterate_skiplist [OF sk] it have xs: "xs = map (value_at h) ns" by simp
  note f = find_spec [OF sk down, where eq = eq and v = v]
  show ?thesis
  proof (cases "dropWhile (\<lambda>b. lt (value_at h b) v) ns")
    case Nil
    have "\<not> found lt eq v xs" unfolding xs found_nodes Nil by simp
    with f show ?thesis by (simp add: Nil Iterator_eq_def SkipList_end_def)
  next
    case (Cons c cs)
    then have "c \<in> set ns" by (metis list.set_intros(1) set_dropWhileD)
    note n = skiplist_node(1) [OF sk this]
    have fd: "found lt eq v xs = eq (value_at h c) v" unfolding xs found_nodes Cons by simp
    have "dropWhile (\<lambda>x. lt x v) xs = map (value_at h) (c # cs)"
      unfolding xs Cons [symmetric] by (simp add: dropWhile_map comp_def)
    then have "hd (dropWhile (\<lambda>x. lt x v) xs) = value_at h c" by simp
    with f fd n show ?thesis
      by (simp add: Cons Iterator_eq_def SkipList_end_def Iterator_deref_def
          value_at_def [symmetric])
  qed
qed

lemma insert_values:
  assumes v: "valid R h s" and down: "downward R lt" and it: "iterate h s = Some xs"
  shows "found lt eq v xs \<Longrightarrow> SkipList_insert lt eq mem v h s = Some (Inr (), h, s)"
    and "\<not> found lt eq v xs \<Longrightarrow>
         \<exists>s'. SkipList_insert lt eq False v h s = Some (Inl bad_alloc, h, s') \<and>
           head s' = head s \<and> size_m s' = size_m s \<and>
           current_level s' = max (current_level s) (fst (random_level (rng s))) \<and>
           rng s' = snd (random_level (rng s)) \<and> valid R h s' \<and> iterate h s' = Some xs"
    and "\<not> found lt eq v xs \<Longrightarrow>
         \<exists>h' s'. SkipList_insert lt eq True v h s = Some (Inr (), h', s') \<and>
           size_m s' = size_m s + 1 \<and> rng s' = snd (random_level (rng s)) \<and>
           ((\<forall>x\<in>set (takeWhile (\<lambda>x. lt x v) xs). R x v) \<and>
            (\<forall>y\<in>set (dropWhile (\<lambda>x. lt x v) xs). R v y) \<longrightarrow>
              valid R h' s' \<and>
              iterate h' s' =
                Some (takeWhile (\<lambda>x. lt x v) xs @ v # dropWhile (\<lambda>x. lt x v) xs))"
proof -
  from v obtain ns where sk: "skiplist R h s ns" by (auto simp: valid_def)
  from iterate_skiplist [OF sk] it have xs: "xs = map (value_at h) ns" by simp
  note i = insert_nodes [OF sk down, where v = v and eq = eq, folded found_nodes, folded xs]
  from i(1) show "found lt eq v xs \<Longrightarrow> SkipList_insert lt eq mem v h s = Some (Inr (), h, s)" .
  assume nf: "\<not> found lt eq v xs"
  from i(2) [OF nf] obtain s' where r: "SkipList_insert lt eq False v h s = Some (Inl bad_alloc, h, s')"
    and s': "head s' = head s" "size_m s' = size_m s"
      "current_level s' = max (current_level s) (fst (random_level (rng s)))"
      "rng s' = snd (random_level (rng s))"
    by blast
  from sk have "current_level s \<le> MAX_LEVEL" by (auto elim!: skiplistE)
  with s' random_level_le [of "rng s"] have "skiplist R h s' ns"
    by (intro skiplist_level [OF sk]) auto
  then have "valid R h s'" by (auto simp: valid_def)
  with r s' it iterate_head [OF s'(1), of h]
  show "\<exists>s'. SkipList_insert lt eq False v h s = Some (Inl bad_alloc, h, s') \<and>
           head s' = head s \<and> size_m s' = size_m s \<and>
           current_level s' = max (current_level s) (fst (random_level (rng s))) \<and>
           rng s' = snd (random_level (rng s)) \<and> valid R h s' \<and> iterate h s' = Some xs"
    by simp
  let ?P = "\<lambda>b. lt (value_at h b) v"
  from i(3) [OF nf] obtain h' s' where r: "SkipList_insert lt eq True v h s = Some (Inr (), h', s')"
    and sk': "(\<forall>a\<in>set (takeWhile ?P ns). R (value_at h a) v) \<and>
              (\<forall>b\<in>set (dropWhile ?P ns). R v (value_at h b)) \<longrightarrow>
            skiplist R h' s' (takeWhile ?P ns @ length h # dropWhile ?P ns)"
    and new: "value_at h' (length h) = v"
    and old: "\<forall>b<length h. value_at h' b = value_at h b"
    and sz: "size_m s' = size_m s + 1" and g: "rng s' = snd (random_level (rng s))"
    by blast
  have tw: "takeWhile (\<lambda>x. lt x v) xs = map (value_at h) (takeWhile ?P ns)"
    and dw: "dropWhile (\<lambda>x. lt x v) xs = map (value_at h) (dropWhile ?P ns)"
    unfolding xs by (simp_all add: takeWhile_map dropWhile_map comp_def)
  have "valid R h' s' \<and>
        iterate h' s' = Some (takeWhile (\<lambda>x. lt x v) xs @ v # dropWhile (\<lambda>x. lt x v) xs)"
    if below: "\<forall>x\<in>set (takeWhile (\<lambda>x. lt x v) xs). R x v"
      and above: "\<forall>y\<in>set (dropWhile (\<lambda>x. lt x v) xs). R v y"
  proof -
    from below have "\<forall>a\<in>set (takeWhile ?P ns). R (value_at h a) v"
      unfolding tw by simp
    moreover from above have "\<forall>b\<in>set (dropWhile ?P ns). R v (value_at h b)"
      unfolding dw by simp
    ultimately have sk2: "skiplist R h' s' (takeWhile ?P ns @ length h # dropWhile ?P ns)"
      using sk' by blast
    have "a < length h" if "a \<in> set ns" for a
      using skiplist_node(2) [OF sk that] .
    then have "map (value_at h') (takeWhile ?P ns) = map (value_at h) (takeWhile ?P ns)"
      and "map (value_at h') (dropWhile ?P ns) = map (value_at h) (dropWhile ?P ns)"
      using old by (auto dest: set_takeWhileD set_dropWhileD)
    with iterate_skiplist [OF sk2] new tw dw sk2 show ?thesis
      by (auto simp: valid_def)
  qed
  with r sz g
  show "\<exists>h' s'. SkipList_insert lt eq True v h s = Some (Inr (), h', s') \<and>
           size_m s' = size_m s + 1 \<and> rng s' = snd (random_level (rng s)) \<and>
           ((\<forall>x\<in>set (takeWhile (\<lambda>x. lt x v) xs). R x v) \<and>
            (\<forall>y\<in>set (dropWhile (\<lambda>x. lt x v) xs). R v y) \<longrightarrow>
              valid R h' s' \<and>
              iterate h' s' =
                Some (takeWhile (\<lambda>x. lt x v) xs @ v # dropWhile (\<lambda>x. lt x v) xs))"
    by blast
qed

lemma erase_values:
  assumes v: "valid R h s" and down: "downward R lt" and it: "iterate h s = Some xs"
  shows "\<not> found lt eq v xs \<Longrightarrow> SkipList_erase lt eq v h s = Some (False, h, s)"
    and "found lt eq v xs \<Longrightarrow>
         \<exists>h' s'. SkipList_erase lt eq v h s = Some (True, h', s') \<and>
           valid R h' s' \<and> size_m s' = size_m s - 1 \<and>
           iterate h' s' =
             Some (takeWhile (\<lambda>x. lt x v) xs @ tl (dropWhile (\<lambda>x. lt x v) xs))"
proof -
  from v obtain ns where sk: "skiplist R h s ns" by (auto simp: valid_def)
  from iterate_skiplist [OF sk] it have xs: "xs = map (value_at h) ns" by simp
  let ?P = "\<lambda>b. lt (value_at h b) v"
  note e = erase_nodes [OF sk down, where v = v and eq = eq]
  from e(1) show "\<not> found lt eq v xs \<Longrightarrow> SkipList_erase lt eq v h s = Some (False, h, s)"
    unfolding xs found_nodes .
  assume "found lt eq v xs"
  then obtain c cs where c: "dropWhile ?P ns = c # cs" and eq: "eq (value_at h c) v"
    unfolding xs found_nodes by (auto split: list.splits)
  from e(2) [OF c eq] obtain h' s' where r: "SkipList_erase lt eq v h s = Some (True, h', s')"
    and sk': "skiplist R h' s' (takeWhile ?P ns @ cs)"
    and vals: "\<forall>b. value_at h' b = value_at h b" and sz: "size_m s' = size_m s - 1"
    by blast
  have tw: "takeWhile (\<lambda>x. lt x v) xs = map (value_at h) (takeWhile ?P ns)"
    and dw: "dropWhile (\<lambda>x. lt x v) xs = map (value_at h) (c # cs)"
    unfolding xs c [symmetric] by (simp_all add: takeWhile_map dropWhile_map comp_def)
  have "value_at h' = value_at h" using vals by auto
  with iterate_skiplist [OF sk'] tw dw
  have "iterate h' s' = Some (takeWhile (\<lambda>x. lt x v) xs @ tl (dropWhile (\<lambda>x. lt x v) xs))"
    by simp
  with r sk' sz
  show "\<exists>h' s'. SkipList_erase lt eq v h s = Some (True, h', s') \<and>
           valid R h' s' \<and> size_m s' = size_m s - 1 \<and>
           iterate h' s' =
             Some (takeWhile (\<lambda>x. lt x v) xs @ tl (dropWhile (\<lambda>x. lt x v) xs))"
    by (auto simp: valid_def)
qed

lemma default_skiplist: "skiplist R (fst (SkipList_default dflt seed h)) (snd (SkipList_default dflt seed h)) []"
  by (simp add: SkipList_default_def make_shared_def skiplist_def Node_move_def MAX_LEVEL_def
      append_new_height link_def node_def)

lemma clear_skiplist: "skiplist R (fst (SkipList_clear dflt h s)) (snd (SkipList_clear dflt h s)) []"
  by (simp add: SkipList_clear_def make_shared_def skiplist_def Node_move_def MAX_LEVEL_def
      append_new_height link_def node_def)

subsection \<open>Copy construction\<close>

lemma skiplist_frame:
  assumes sk: "skiplist R h s ns" and hd: "head s = Some hd_node"
    and same: "\<And>b. b \<in> set (hd_node # ns) \<Longrightarrow>
                 height h' b = height h b \<and> value_at h' b = value_at h b \<and>
                 (\<forall>j. link h' b j = link h b j)"
  shows "skiplist R h' s ns"
proof -
  from sk hd have hh: "height h hd_node = MAX_LEVEL + 1"
    and hdn: "hd_node \<notin> set ns" and dist: "distinct ns"
    and lv: "current_level s \<le> MAX_LEVEL" and sz: "size_m s = length ns"
    and pos: "\<And>a. a \<in> set ns \<Longrightarrow> 0 < height h a \<and> height h a \<le> current_level s + 1"
    and sorted: "sorted_wrt (\<lambda>a b. R (value_at h a) (value_at h b)) ns"
    and paths: "\<And>i. i \<le> MAX_LEVEL \<Longrightarrow> path h i hd_node (filter (\<lambda>a. i < height h a) ns)"
    by (auto elim!: skiplistE)
  have c1: "height h' hd_node = MAX_LEVEL + 1" using same [of hd_node] hh by simp
  have c6: "0 < height h' a \<and> height h' a \<le> current_level s + 1" if "a \<in> set ns" for a
    using same [of a] pos [OF that] that by simp
  have c7: "sorted_wrt (\<lambda>a b. R (value_at h' a) (value_at h' b)) ns"
    using sorted
  proof (rule sorted_wrt_mono_rel [rotated])
    fix x y assume "x \<in> set ns" "y \<in> set ns" "R (value_at h x) (value_at h y)"
    then show "R (value_at h' x) (value_at h' y)"
      using same [of x] same [of y] by simp
  qed
  have c8: "path h' i hd_node (filter (\<lambda>a. i < height h' a) ns)" if i: "i \<le> MAX_LEVEL" for i
  proof -
    have f: "filter (\<lambda>a. i < height h' a) ns = filter (\<lambda>a. i < height h a) ns"
      using same by (intro filter_cong) auto
    have "path h' i hd_node (filter (\<lambda>a. i < height h a) ns) =
          path h i hd_node (filter (\<lambda>a. i < height h a) ns)"
    proof (rule path_cong)
      fix b assume "b \<in> set (hd_node # filter (\<lambda>a. i < height h a) ns)"
      then have "b \<in> set (hd_node # ns)" by auto
      from same [OF this] show "link h' b i = link h b i" by simp
    qed
    with paths [OF i] f show ?thesis by simp
  qed
  show ?thesis
    unfolding skiplist_def using hd c1 hdn dist lv sz c6 c7 c8 by simp
qed

lemma copy_items_spec:
  fixes h :: "'a heap"
  assumes tr: "transp lt"
  shows "skiplist lt h other ms \<Longrightarrow> head other = Some hd_o \<Longrightarrow>
     skiplist lt h this ns \<Longrightarrow> head this = Some hd_t \<Longrightarrow>
     set (hd_t # ns) \<inter> set (hd_o # ms) = {} \<Longrightarrow> ms = pre @ todo \<Longrightarrow>
     map (value_at h) ns = map (value_at h) pre \<Longrightarrow>
     \<exists>h' this' ns'.
        copy_items lt eq h this \<lparr>current = (case todo of [] \<Rightarrow> None | b # _ \<Rightarrow> Some b)\<rparr> =
          Some (h', this') \<and>
        skiplist lt h' this' ns' \<and> skiplist lt h' other ms \<and>
        map (value_at h') ns' = map (value_at h) ms \<and>
        map (value_at h') ms = map (value_at h) ms"
proof (induction todo arbitrary: h this ns pre)
  case Nil
  then show ?case
    by (subst copy_items.simps)
      (auto simp: Iterator_neq_def Iterator_eq_def SkipList_end_def)
next
  case (Cons b rest)
  note sko = Cons.prems(1) and hdo = Cons.prems(2) and skt = Cons.prems(3)
    and hdt = Cons.prems(4) and disj = Cons.prems(5) and ms = Cons.prems(6)
    and vs = Cons.prems(7)
  let ?item = "value_at h b"
  let ?P = "\<lambda>a. lt (value_at h a) ?item"
  let ?it = "\<lparr>current = Some b\<rparr>"
  from sko have sorted: "sorted_wrt (\<lambda>a b. lt (value_at h a) (value_at h b)) ms"
    and pos: "\<And>a. a \<in> set ms \<Longrightarrow> 0 < height h a \<and> height h a \<le> current_level other + 1"
    and paths: "\<And>i. i \<le> MAX_LEVEL \<Longrightarrow> path h i hd_o (filter (\<lambda>a. i < height h a) ms)"
    using hdo by (auto elim!: skiplistE)
  note oldo = skiplist_old(1,2) [OF sko hdo] and oldt = skiplist_old(1,2) [OF skt hdt]
  have bm: "b \<in> set ms" using ms by simp
  have nb: "node h b = Some (h ! b)" using oldo(2) [OF bm] by (simp add: node_def)
  have dr: "Iterator_deref h ?it = Some (Inr ?item)"
    using nb by (simp add: Iterator_deref_def value_at_def)
  have allP: "?P a" if "a \<in> set ns" for a
  proof -
    from that have "value_at h a \<in> set (map (value_at h) ns)" by simp
    then have "value_at h a \<in> set (map (value_at h) pre)" unfolding vs .
    then obtain p where "p \<in> set pre" and "value_at h a = value_at h p" by auto
    with sorted show ?thesis unfolding ms by (simp add: sorted_wrt_append)
  qed
  then have tw: "takeWhile ?P ns = ns" and dw: "dropWhile ?P ns = []" by simp_all
  have "\<not> (case dropWhile ?P ns of [] \<Rightarrow> False | c # _ \<Rightarrow> eq (value_at h c) ?item)"
    unfolding dw by simp
  from insert_nodes(3) [where eq = eq and v = ?item, OF skt downward_lt [OF tr] this]
  obtain h' s' where ins: "SkipList_insert lt eq True ?item h this = Some (Inr (), h', s')"
    and skt': "skiplist lt h' s' (ns @ [length h])"
    and len: "length h' = length h + 1" and new: "value_at h' (length h) = ?item"
    and vals: "\<forall>b<length h. value_at h' b = value_at h b"
    and hts: "\<forall>b<length h. height h' b = height h b"
    and links: "\<forall>b j. b < length h \<longrightarrow> b \<notin> set (hd_t # ns) \<longrightarrow> link h' b j = link h b j"
    and hdt': "head s' = head this"
    unfolding tw dw using hdt allP by auto
  have frame: "height h' a = height h a \<and> value_at h' a = value_at h a \<and>
      (\<forall>j. link h' a j = link h a j)" if "a \<in> set (hd_o # ms)" for a
  proof -
    from that oldo have "a < length h" by auto
    moreover from that disj have "a \<notin> set (hd_t # ns)" by blast
    ultimately show ?thesis using vals hts links by simp
  qed
  have sko': "skiplist lt h' other ms"
    using sko hdo frame by (rule skiplist_frame)
  have "filter (\<lambda>a. 0 < height h a) ms = ms"
    using pos by (intro filter_level0 [of ms]) auto
  with paths [of 0] have "path h 0 hd_o (pre @ b # rest)" unfolding ms by simp
  then have "path h 0 b rest" by (rule path_suffix)
  then have "link h b 0 = Some (case rest of [] \<Rightarrow> None | c # _ \<Rightarrow> Some c)"
    by (cases rest) auto
  with frame [of b] bm
  have inc: "Iterator_incr h' ?it = Some \<lparr>current = (case rest of [] \<Rightarrow> None | c # _ \<Rightarrow> Some c)\<rparr>"
    by (simp add: Iterator_incr_def)
  have vs': "map (value_at h') (ns @ [length h]) = map (value_at h') (pre @ [b])"
  proof -
    have "map (value_at h') ns = map (value_at h) ns"
      using oldt(2) vals by simp
    moreover have "map (value_at h') pre = map (value_at h) pre"
      using oldo(2) vals ms by simp
    moreover have "value_at h' b = value_at h b" using frame [of b] bm by simp
    ultimately show ?thesis using vs new by simp
  qed
  have disj': "set (hd_t # ns @ [length h]) \<inter> set (hd_o # ms) = {}"
    using disj oldo by auto
  from Cons.IH [OF sko' hdo skt' _ _ _ vs'] hdt hdt' disj' ms
  obtain h'' this'' ns'' where
    rec: "copy_items lt eq h' s' \<lparr>current = (case rest of [] \<Rightarrow> None | c # _ \<Rightarrow> Some c)\<rparr> =
            Some (h'', this'')"
    and r1: "skiplist lt h'' this'' ns''" and r2: "skiplist lt h'' other ms"
    and r3: "map (value_at h'') ns'' = map (value_at h') ms"
    and r4: "map (value_at h'') ms = map (value_at h') ms"
    by auto
  have same: "map (value_at h') ms = map (value_at h) ms"
    using frame by simp
  have "copy_items lt eq h this ?it = Some (h'', this'')"
    using dr ins inc rec
    by (subst copy_items.simps)
      (simp add: Iterator_neq_def Iterator_eq_def SkipList_end_def)
  with r1 r2 r3 r4 same show ?case by auto
qed

text \<open>
  The copy constructor returns a well-formed list with the values of the source, and the
  source is as it was.
\<close>

lemma copy_values:
  assumes v: "valid lt h s" and tr: "transp lt" and it: "iterate h s = Some xs"
  shows "\<exists>h' s'. SkipList_copy lt eq dflt seed h s = Some (h', s') \<and>
           valid lt h' s' \<and> iterate h' s' = Some xs \<and>
           valid lt h' s \<and> iterate h' s = Some xs"
proof -
  from v obtain ms where sk: "skiplist lt h s ms" by (auto simp: valid_def)
  from iterate_skiplist [OF sk] it have xs: "xs = map (value_at h) ms" by simp
  from sk obtain hd_o where hd: "head s = Some hd_o" by (rule skiplistE) blast
  from sk hd have pos: "\<And>a. a \<in> set ms \<Longrightarrow> 0 < height h a \<and> height h a \<le> current_level s + 1"
    and paths: "\<And>i. i \<le> MAX_LEVEL \<Longrightarrow> path h i hd_o (filter (\<lambda>a. i < height h a) ms)"
    by (auto elim!: skiplistE)
  note old = skiplist_old(1,2) [OF sk hd]
  obtain h1 this where d: "SkipList_default dflt seed h = (h1, this)"
    by (cases "SkipList_default dflt seed h")
  then have h1: "h1 = h @ [Node_move dflt MAX_LEVEL]" and hdt: "head this = Some (length h)"
    by (auto simp: SkipList_default_def make_shared_def)
  have skt: "skiplist lt h1 this []"
    using default_skiplist [of lt dflt seed h] d by simp
  have frame: "height h1 a = height h a \<and> value_at h1 a = value_at h a \<and>
      (\<forall>j. link h1 a j = link h a j)" if "a \<in> set (hd_o # ms)" for a
  proof -
    from that old have "a < length h" by auto
    then show ?thesis unfolding h1 by (simp add: append_height append_value append_link)
  qed
  have sko: "skiplist lt h1 s ms"
    using sk hd frame by (rule skiplist_frame)
  have "filter (\<lambda>a. 0 < height h a) ms = ms"
    using pos by (intro filter_level0 [of ms]) auto
  with paths [of 0] have "path h 0 hd_o ([] @ ms)" by simp
  then have "link h (last [hd_o]) 0 = Some (case ms of [] \<Rightarrow> None | c # _ \<Rightarrow> Some c)"
    by (rule path_link_last)
  with frame [of hd_o] hd
  have bg: "SkipList_begin h1 s = Some \<lparr>current = (case ms of [] \<Rightarrow> None | c # _ \<Rightarrow> Some c)\<rparr>"
    by (simp add: SkipList_begin_def)
  have disj: "set (length h # []) \<inter> set (hd_o # ms) = {}"
    using old by auto
  from copy_items_spec [where eq = eq and pre = "[]", OF tr sko hd skt hdt disj]
  obtain h' s' ns where c: "copy_items lt eq h1 this
        \<lparr>current = (case ms of [] \<Rightarrow> None | c # _ \<Rightarrow> Some c)\<rparr> = Some (h', s')"
    and r1: "skiplist lt h' s' ns" and r2: "skiplist lt h' s ms"
    and r3: "map (value_at h') ns = map (value_at h1) ms"
    and r4: "map (value_at h') ms = map (value_at h1) ms"
    by auto
  have same: "map (value_at h1) ms = map (value_at h) ms" using frame by simp
  have "SkipList_copy lt eq dflt seed h s = Some (h', s')"
    using d bg c by (simp add: SkipList_copy_def)
  moreover from iterate_skiplist [OF r1] r3 same xs have "iterate h' s' = Some xs" by simp
  moreover from iterate_skiplist [OF r2] r4 same xs have "iterate h' s = Some xs" by simp
  ultimately show ?thesis using r1 r2 by (auto simp: valid_def)
qed

lemma swap_lists_fields:
  "head (fst (swap_lists a b)) = head b \<and> current_level (fst (swap_lists a b)) = current_level b \<and>
   size_m (fst (swap_lists a b)) = size_m b \<and> rng (fst (swap_lists a b)) = rng b \<and>
   head (snd (swap_lists a b)) = head a \<and> current_level (snd (swap_lists a b)) = current_level a \<and>
   size_m (snd (swap_lists a b)) = size_m a \<and> rng (snd (swap_lists a b)) = rng a"
  by (simp add: swap_lists_def SkipList_move_def SkipList_move_assign_def)

lemma move_assign_valid:
  assumes "valid R h s"
  shows "valid R h (fst (SkipList_move_assign this s))"
proof -
  from assms obtain ns where sk: "skiplist R h s ns" by (auto simp: valid_def)
  then have "current_level s \<le> MAX_LEVEL" by (auto elim!: skiplistE)
  then have "skiplist R h (fst (SkipList_move_assign this s)) ns"
    by (intro skiplist_level [OF sk]) (simp_all add: SkipList_move_assign_def)
  then show ?thesis by (auto simp: valid_def)
qed

lemma move_assign_iterate: "iterate h (fst (SkipList_move_assign this s)) = iterate h s"
  by (rule iterate_head) (simp add: SkipList_move_assign_def)

lemma copy_assign_values:
  assumes v: "valid lt h s" and tr: "transp lt" and it: "iterate h s = Some xs"
  shows "\<exists>h' s'. SkipList_copy_assign lt eq dflt seed h this s = Some (h', s') \<and>
           valid lt h' s' \<and> iterate h' s' = Some xs \<and>
           valid lt h' s \<and> iterate h' s = Some xs"
proof -
  from copy_values [OF v tr it, of eq dflt seed]
  obtain h' t where c: "SkipList_copy lt eq dflt seed h s = Some (h', t)"
    and vt: "valid lt h' t" and itt: "iterate h' t = Some xs"
    and vs: "valid lt h' s" and its: "iterate h' s = Some xs"
    by blast
  let ?r = "fst (swap_lists this t)"
  note f = swap_lists_fields [of this t]
  from vt obtain ns where sk: "skiplist lt h' t ns" by (auto simp: valid_def)
  then have "current_level t \<le> MAX_LEVEL" by (auto elim!: skiplistE)
  with f have "skiplist lt h' ?r ns" by (intro skiplist_level [OF sk]) simp_all
  then have "valid lt h' ?r" by (auto simp: valid_def)
  moreover have "iterate h' ?r = Some xs" using f itt iterate_head [of ?r t h'] by simp
  ultimately show ?thesis using c vs its by (simp add: SkipList_copy_assign_def)
qed

subsection \<open>Sequences of calls\<close>

lemma insert_rvalue_eq:
  "SkipList_insert_rvalue lt eq mem v h s = SkipList_insert lt eq mem v h s"
proof -
  have same_node: "(Node_move :: 'a \<Rightarrow> nat \<Rightarrow> 'a Node) = Node_copy"
    by (intro ext) (simp add: Node_move_def Node_copy_def)
  show ?thesis
    unfolding SkipList_insert_rvalue_def SkipList_insert_def same_node by (rule refl)
qed

text \<open>
  What one successful \<open>insert\<close> does to the sequence of values, for an element type that
  meets the requirements.
\<close>

lemma insert_contents:
  assumes swo: "strict_weak_order lt" and cons: "consistent_eq lt eq"
    and v: "valid lt h s" and it: "iterate h s = Some xs"
  shows "\<exists>h' s'. SkipList_insert lt eq True v h s = Some (Inr (), h', s') \<and> valid lt h' s' \<and>
           iterate h' s' =
             Some (if \<exists>x\<in>set xs. eq x v then xs
                   else takeWhile (\<lambda>x. lt x v) xs @ v # dropWhile (\<lambda>x. lt x v) xs)"
proof -
  note tr = swo_transp [OF swo]
  from valid_iterate [OF v] it have sorted: "sorted_wrt lt xs" by simp
  note fm = found_member [OF sorted tr cons, of v]
  show ?thesis
  proof (cases "found lt eq v xs")
    case True
    with insert_values(1) [OF v downward_lt [OF tr] it, of eq v True] v it fm show ?thesis by simp
  next
    case False
    from insert_values(3) [OF v downward_lt [OF tr] it False] below_lt [where xs = xs and lt = lt and v = v]
      absent_above [OF sorted tr cons False] fm False
    show ?thesis by auto
  qed
qed

lemma erase_contents:
  assumes swo: "strict_weak_order lt" and cons: "consistent_eq lt eq"
    and v: "valid lt h s" and it: "iterate h s = Some xs"
  shows "\<exists>b h' s'. SkipList_erase lt eq v h s = Some (b, h', s') \<and> valid lt h' s' \<and>
           (b \<longleftrightarrow> (\<exists>x\<in>set xs. eq x v)) \<and>
           iterate h' s' = Some (filter (\<lambda>x. \<not> eq x v) xs) \<and>
           (if b then size_m s' + 1 = size_m s \<and>
                      length (filter (\<lambda>x. \<not> eq x v) xs) + 1 = length xs
            else h' = h \<and> s' = s)"
proof -
  note tr = swo_transp [OF swo]
  from valid_iterate [OF v] it have sorted: "sorted_wrt lt xs" and sz: "length xs = size_m s"
    by simp_all
  note fm = found_member [OF sorted tr cons, of v]
  show ?thesis
  proof (cases "found lt eq v xs")
    case False
    with fm have "filter (\<lambda>x. \<not> eq x v) xs = xs" by (simp add: filter_id_conv)
    with erase_values(1) [OF v downward_lt [OF tr] it False] v it fm False show ?thesis
      by (intro exI [of _ False] exI [of _ h] exI [of _ s]) simp
  next
    case True
    then obtain c cs where dw: "dropWhile (\<lambda>x. lt x v) xs = c # cs" and e: "eq c v"
      by (auto simp: found_def split: list.splits)
    from erase_values(2) [OF v downward_lt [OF tr] it True]
    obtain h' s' where r: "SkipList_erase lt eq v h s = Some (True, h', s')"
      and v': "valid lt h' s'" and sz': "size_m s' = size_m s - 1"
      and it': "iterate h' s' = Some (takeWhile (\<lambda>x. lt x v) xs @ tl (dropWhile (\<lambda>x. lt x v) xs))"
      by blast
    note rm = found_remove [OF sorted swo cons dw e]
    have "length (takeWhile (\<lambda>x. lt x v) xs @ c # cs) = length xs"
      unfolding dw [symmetric] by simp
    then have len: "length (takeWhile (\<lambda>x. lt x v) xs @ cs) + 1 = length xs" by simp
    with r v' sz' it' rm fm True sz show ?thesis
      by (intro exI [of _ True] exI [of _ h'] exI [of _ s']) (simp add: dw)
  qed
qed

lemma call_valid:
  assumes swo: "strict_weak_order lt" and cons: "consistent_eq lt eq"
    and v: "valid lt h s"
  shows "\<exists>h' s'. call lt eq dflt c (h, s) = Some (h', s') \<and> valid lt h' s'"
proof -
  from valid_iterate [OF v] obtain xs where it: "iterate h s = Some xs" by blast
  show ?thesis
  proof (cases c)
    case (Insert x)
    from insert_contents [OF swo cons v it, of x] show ?thesis
      unfolding Insert by auto
  next
    case (Insert_rvalue x)
    from insert_contents [OF swo cons v it, of x] show ?thesis
      unfolding Insert_rvalue by (auto simp: insert_rvalue_eq)
  next
    case (Erase x)
    from erase_contents [OF swo cons v it, of x] show ?thesis
      unfolding Erase by auto
  next
    case (Find x)
    from find_values [OF v downward_lt [OF swo_transp [OF swo]] it, of eq x] v show ?thesis
      unfolding Find by auto
  next
    case Clear
    have "valid lt (fst (SkipList_clear dflt h s)) (snd (SkipList_clear dflt h s))"
      unfolding valid_def by (rule exI [of _ "[]"]) (rule clear_skiplist)
    then show ?thesis unfolding Clear by (cases "SkipList_clear dflt h s") simp
  next
    case Move_construct
    have "fst (SkipList_move s) = s" by (cases s) (simp add: SkipList_move_def)
    with v show ?thesis unfolding Move_construct by simp
  next
    case (Copy_construct seed)
    from copy_values [OF v swo_transp [OF swo] it, of eq dflt seed] show ?thesis
      unfolding Copy_construct by auto
  next
    case (Move_assign this)
    from v show ?thesis
      unfolding Move_assign by (simp add: move_assign_valid)
  next
    case (Copy_assign this seed)
    from copy_assign_values [OF v swo_transp [OF swo] it, of eq dflt seed this] show ?thesis
      unfolding Copy_assign by auto
  qed
qed

text \<open>Every list that a sequence of calls builds is well formed.\<close>

lemma run_valid:
  assumes swo: "strict_weak_order lt" and cons: "consistent_eq lt eq"
  shows "valid lt h s \<Longrightarrow> \<exists>h' s'. run lt eq dflt cs (h, s) = Some (h', s') \<and> valid lt h' s'"
proof (induction cs arbitrary: h s)
  case Nil
  then show ?case by simp
next
  case (Cons c cs)
  from call_valid [OF swo cons Cons.prems, of dflt c]
  obtain h1 s1 where c: "call lt eq dflt c (h, s) = Some (h1, s1)" and v1: "valid lt h1 s1"
    by blast
  from Cons.IH [OF v1] c show ?case by simp
qed

lemma default_valid:
  "SkipList_default dflt seed h0 = (h, s) \<Longrightarrow> valid lt h s"
  unfolding valid_def using default_skiplist [of lt dflt seed h0] by auto

lemma default_iterate:
  "SkipList_default dflt seed h0 = (h, s) \<Longrightarrow> iterate h s = Some []"
  using iterate_skiplist [OF default_skiplist [of lt dflt seed h0]] by simp

lemma eq_refl: "strict_weak_order lt \<Longrightarrow> consistent_eq lt eq \<Longrightarrow> eq v v"
  by (simp add: consistent_eq_def derived_eq_def swo_irrefl)

lemma insert_sequence:
  assumes swo: "strict_weak_order lt" and cons: "consistent_eq lt eq"
  shows "valid lt h s \<Longrightarrow> iterate h s = Some xs0 \<Longrightarrow>
         \<exists>h' s' xs. run lt eq dflt (map Insert S) (h, s) = Some (h', s') \<and> valid lt h' s' \<and>
           iterate h' s' = Some xs \<and> set xs0 \<subseteq> set xs \<and> set xs \<subseteq> set xs0 \<union> set S \<and>
           (\<forall>v\<in>set S. \<exists>x\<in>set xs. eq x v)"
proof (induction S arbitrary: h s xs0)
  case Nil
  then show ?case by simp
next
  case (Cons v S)
  let ?xs1 = "if \<exists>x\<in>set xs0. eq x v then xs0
              else takeWhile (\<lambda>x. lt x v) xs0 @ v # dropWhile (\<lambda>x. lt x v) xs0"
  from insert_contents [OF swo cons Cons.prems, of v]
  obtain h1 s1 where i: "SkipList_insert lt eq True v h s = Some (Inr (), h1, s1)"
    and v1: "valid lt h1 s1" and it1: "iterate h1 s1 = Some ?xs1"
    by blast
  have u: "set (takeWhile (\<lambda>x. lt x v) xs0) \<union> set (dropWhile (\<lambda>x. lt x v) xs0) = set xs0"
    by (metis set_append takeWhile_dropWhile_id)
  have s1: "set xs0 \<subseteq> set ?xs1" and s2: "set ?xs1 \<subseteq> set xs0 \<union> {v}"
    using u by auto
  have m: "\<exists>x\<in>set ?xs1. eq x v"
    using eq_refl [OF swo cons, of v] by auto
  from Cons.IH [OF v1 it1]
  obtain h' s' xs where r: "run lt eq dflt (map Insert S) (h1, s1) = Some (h', s')"
    and v': "valid lt h' s'" and it': "iterate h' s' = Some xs"
    and a: "set ?xs1 \<subseteq> set xs" and b: "set xs \<subseteq> set ?xs1 \<union> set S"
    and c: "\<forall>v\<in>set S. \<exists>x\<in>set xs. eq x v"
    by blast
  have "set xs0 \<subseteq> set xs" using s1 a by blast
  moreover have "set xs \<subseteq> set xs0 \<union> set (v # S)" using s2 b by auto
  moreover have "\<forall>w\<in>set (v # S). \<exists>x\<in>set xs. eq x w" using m a c by auto
  ultimately show ?case using i r v' it' by auto
qed

subsection \<open>The node that \<open>erase\<close> removes\<close>

lemma dropWhile_from:
  "(\<And>x. x \<in> set xs \<Longrightarrow> P x) \<Longrightarrow> \<not> P y \<Longrightarrow> dropWhile P (xs @ y # ys) = y # ys"
  by (induction xs) auto

lemma sorted_wrt_distinct:
  "(\<And>x. \<not> R x x) \<Longrightarrow> sorted_wrt R xs \<Longrightarrow> distinct xs"
  by (induction xs) auto

lemma erase_frame:
  fixes h :: "'a heap"
  assumes sk: "skiplist lt h s ns" and tr: "transp lt"
    and c: "dropWhile (\<lambda>b. lt (value_at h b) v) ns = c # cs" and e: "eq (value_at h c) v"
  shows "\<exists>h' s'. SkipList_erase lt eq v h s = Some (True, h', s') \<and>
           skiplist lt h' s' (takeWhile (\<lambda>b. lt (value_at h b) v) ns @ cs) \<and>
           length h' = length h \<and> (\<forall>b. value_at h' b = value_at h b) \<and>
           (\<forall>b. height h' b = height h b) \<and>
           (\<forall>j. link h' c j = link h c j) \<and>
           (\<forall>b j. link h' b j = link h b j \<or>
                   link h b j = Some (Some c) \<and> link h' b j = link h c j) \<and>
           link h c 0 = Some (case cs of [] \<Rightarrow> None | d # _ \<Rightarrow> Some d)"
proof -
  let ?P = "\<lambda>b. lt (value_at h b) v"
  from sk obtain hd_node where hd: "head s = Some hd_node" by (rule skiplistE) blast
  let ?p = "pred_at lt h v hd_node ns"
  from sk hd have hdn: "hd_node \<notin> set ns" and dist: "distinct ns"
    and lv: "current_level s \<le> MAX_LEVEL"
    and pos: "\<And>a. a \<in> set ns \<Longrightarrow> 0 < height h a \<and> height h a \<le> current_level s + 1"
    and paths: "\<And>i. i \<le> MAX_LEVEL \<Longrightarrow> path h i hd_node (filter (\<lambda>a. i < height h a) ns)"
    by (auto elim!: skiplistE)
  define lows where "lows = takeWhile ?P ns"
  have ns: "ns = lows @ c # cs" unfolding lows_def c [symmetric] by simp
  from erase_nodes(2) [where eq = eq and v = v, OF sk downward_lt [OF tr] c e] hd
  obtain h' s' where r: "SkipList_erase lt eq v h s = Some (True, h', s')"
    and sk': "skiplist lt h' s' (takeWhile ?P ns @ cs)"
    and len: "length h' = length h" and vals: "\<forall>b. value_at h' b = value_at h b"
    and hts: "\<forall>b. height h' b = height h b"
    and links: "\<forall>b j. link h' b j =
              (if 0 \<le> j \<and> j < height h c \<and> b = ?p j then link h c j else link h b j)"
    by auto
  have cp: "c \<noteq> ?p j" for j
  proof -
    have "?p j \<in> set (hd_node # filter (\<lambda>a. j < height h a) lows)"
      unfolding lows_def by (rule pred_at_mem) simp
    moreover have "c \<notin> set lows" "c \<noteq> hd_node"
      using dist hdn ns by auto
    ultimately show ?thesis by auto
  qed
  have 1: "\<forall>j. link h' c j = link h c j"
    using links cp by simp
  have 2: "link h' b j = link h b j \<or> link h b j = Some (Some c) \<and> link h' b j = link h c j"
    for b j
  proof (cases "j < height h c \<and> b = ?p j")
    case False
    with links show ?thesis by auto
  next
    case True
    from pos [of c] ns lv True have "j \<le> MAX_LEVEL" by simp
    from pred_link [OF paths [OF this], of lt v] True
    have "link h b j = Some (Some c)" unfolding c by simp
    with links True show ?thesis by simp
  qed
  have "filter (\<lambda>a. 0 < height h a) ns = ns"
    using pos by (intro filter_level0 [of ns]) auto
  with paths [of 0] have "path h 0 hd_node (lows @ c # cs)" unfolding ns by simp
  then have "path h 0 c cs" by (rule path_suffix)
  then have 3: "link h c 0 = Some (case cs of [] \<Rightarrow> None | d # _ \<Rightarrow> Some d)"
    by (cases cs) auto
  from r sk' len vals hts 1 2 3 show ?thesis by blast
qed

subsection \<open>Values that do not descend\<close>

text \<open>
  What holds of the list whatever \<open>operator==\<close> is, as long as \<open>operator<\<close> is a strict
  weak ordering: the values never descend, and that is all the search needs.
\<close>

lemma swo_asym: "strict_weak_order lt \<Longrightarrow> lt a b \<Longrightarrow> \<not> lt b a"
  unfolding strict_weak_order_def by blast

lemma swo_cotrans:
  assumes swo: "strict_weak_order lt" and yv: "lt y v" and yx: "\<not> lt y x"
  shows "lt x v"
proof (rule ccontr)
  assume xv: "\<not> lt x v"
  note tr = transpD [OF swo_transp [OF swo]]
  have "\<not> lt v x" using tr [OF yv] yx by blast
  with xv have 1: "derived_eq lt x v" by (simp add: derived_eq_def)
  have "\<not> lt x y" using tr [of x y v] yv xv by blast
  with yx have 2: "derived_eq lt y x" by (simp add: derived_eq_def)
  from swo_equiv [OF swo 2 1] yv show False by (simp add: derived_eq_def)
qed

lemma swo_downward: "strict_weak_order lt \<Longrightarrow> downward (not_greater lt) lt"
  unfolding downward_def not_greater_def by (blast intro: swo_cotrans)

lemma not_greater_fits:
  assumes swo: "strict_weak_order lt"
    and sorted: "sorted_wrt (\<lambda>a b. not_greater lt (f a) (f b)) ns"
  shows "(\<forall>a\<in>set (takeWhile (\<lambda>b. lt (f b) v) ns). not_greater lt (f a) v) \<and>
         (\<forall>b\<in>set (dropWhile (\<lambda>b. lt (f b) v) ns). not_greater lt v (f b))"
proof -
  let ?P = "\<lambda>b. lt (f b) v"
  have 1: "not_greater lt (f a) v" if "a \<in> set (takeWhile ?P ns)" for a
  proof -
    from that have "lt (f a) v" by (auto dest: set_takeWhileD)
    then show ?thesis unfolding not_greater_def by (rule swo_asym [OF swo])
  qed
  have 2: "not_greater lt v (f b)" if b: "b \<in> set (dropWhile ?P ns)" for b
  proof (cases "dropWhile ?P ns")
    case Nil
    with b show ?thesis by simp
  next
    case (Cons c cs)
    have c: "\<not> lt (f c) v"
      using Cons hd_dropWhile [of ?P ns] by simp
    show ?thesis
    proof (cases "b = c")
      case True
      with c show ?thesis by (simp add: not_greater_def)
    next
      case False
      with b Cons have "b \<in> set cs" by simp
      moreover have "sorted_wrt (\<lambda>a b. not_greater lt (f a) (f b)) (takeWhile ?P ns @ c # cs)"
        using sorted unfolding Cons [symmetric] by simp
      ultimately have "\<not> lt (f b) (f c)"
        by (simp add: sorted_wrt_append not_greater_def)
      with c swo_cotrans [OF swo, of "f b" v "f c"] show ?thesis
        unfolding not_greater_def by blast
    qed
  qed
  from 1 2 show ?thesis by blast
qed

text \<open>A list whose values ascend strictly is one whose values do not descend.\<close>

lemma valid_not_greater:
  assumes swo: "strict_weak_order lt" and v: "valid lt h s"
  shows "valid (not_greater lt) h s"
proof -
  from v obtain ns where sk: "skiplist lt h s ns" by (auto simp: valid_def)
  have "sorted_wrt (\<lambda>a b. not_greater lt (value_at h a) (value_at h b)) ns"
    if "sorted_wrt (\<lambda>a b. lt (value_at h a) (value_at h b)) ns"
    using that
  proof (rule sorted_wrt_mono_rel [rotated])
    fix x y assume "lt (value_at h x) (value_at h y)"
    then show "not_greater lt (value_at h x) (value_at h y)"
      unfolding not_greater_def by (rule swo_asym [OF swo])
  qed
  with sk have "skiplist (not_greater lt) h s ns"
    unfolding skiplist_def by (auto split: option.splits)
  then show ?thesis by (auto simp: valid_def)
qed

lemma insert_not_greater:
  assumes swo: "strict_weak_order lt" and v: "valid (not_greater lt) h s"
    and it: "iterate h s = Some xs"
  shows "\<exists>h' s'. SkipList_insert lt eq True v h s = Some (Inr (), h', s') \<and>
           valid (not_greater lt) h' s' \<and> (size_m s' = size_m s \<longleftrightarrow> found lt eq v xs)"
proof (cases "found lt eq v xs")
  case True
  from insert_values(1) [OF v swo_downward [OF swo] it True, of True] v True
  show ?thesis by simp
next
  case False
  from valid_iterate [OF v] it have "sorted_wrt (not_greater lt) xs" by simp
  then have "sorted_wrt (\<lambda>a b. not_greater lt ((\<lambda>x. x) a) ((\<lambda>x. x) b)) xs" by simp
  from not_greater_fits [OF swo this, of v]
  have "(\<forall>x\<in>set (takeWhile (\<lambda>x. lt x v) xs). not_greater lt x v) \<and>
        (\<forall>y\<in>set (dropWhile (\<lambda>x. lt x v) xs). not_greater lt v y)"
    by simp
  with insert_values(3) [OF v swo_downward [OF swo] it False] False
  show ?thesis by auto
qed

lemma erase_not_greater:
  assumes swo: "strict_weak_order lt" and v: "valid (not_greater lt) h s"
    and it: "iterate h s = Some xs"
  shows "\<exists>b h' s'. SkipList_erase lt eq v h s = Some (b, h', s') \<and>
           valid (not_greater lt) h' s' \<and> (b \<longleftrightarrow> found lt eq v xs)"
proof (cases "found lt eq v xs")
  case True
  from erase_values(2) [OF v swo_downward [OF swo] it True] True show ?thesis by blast
next
  case False
  from erase_values(1) [OF v swo_downward [OF swo] it False] v False show ?thesis by blast
qed

lemma copy_items_not_greater:
  fixes h :: "'a heap"
  assumes swo: "strict_weak_order lt"
  shows "skiplist (not_greater lt) h other ms \<Longrightarrow> head other = Some hd_o \<Longrightarrow>
     skiplist (not_greater lt) h this ns \<Longrightarrow> head this = Some hd_t \<Longrightarrow>
     set (hd_t # ns) \<inter> set (hd_o # ms) = {} \<Longrightarrow> ms = pre @ todo \<Longrightarrow>
     \<exists>h' this'.
        copy_items lt eq h this \<lparr>current = (case todo of [] \<Rightarrow> None | b # _ \<Rightarrow> Some b)\<rparr> =
          Some (h', this') \<and>
        valid (not_greater lt) h' this' \<and> skiplist (not_greater lt) h' other ms"
proof (induction todo arbitrary: h this ns pre)
  case Nil
  then show ?case
    by (subst copy_items.simps)
      (auto simp: Iterator_neq_def Iterator_eq_def SkipList_end_def valid_def)
next
  case (Cons b rest)
  note sko = Cons.prems(1) and hdo = Cons.prems(2) and skt = Cons.prems(3)
    and hdt = Cons.prems(4) and disj = Cons.prems(5) and ms = Cons.prems(6)
  let ?item = "value_at h b"
  let ?P = "\<lambda>a. lt (value_at h a) ?item"
  let ?it = "\<lparr>current = Some b\<rparr>"
  let ?nxt = "\<lparr>current = (case rest of [] \<Rightarrow> None | c # _ \<Rightarrow> Some c)\<rparr>"
  note dwn = swo_downward [OF swo]
  from sko hdo
  have pos: "\<And>a. a \<in> set ms \<Longrightarrow> 0 < height h a \<and> height h a \<le> current_level other + 1"
    and paths: "\<And>i. i \<le> MAX_LEVEL \<Longrightarrow> path h i hd_o (filter (\<lambda>a. i < height h a) ms)"
    by (auto elim!: skiplistE)
  from skt have sortedt: "sorted_wrt (\<lambda>a b. not_greater lt (value_at h a) (value_at h b)) ns"
    by (auto elim!: skiplistE)
  note oldo = skiplist_old(1,2) [OF sko hdo] and oldt = skiplist_old(1,2) [OF skt hdt]
  have bm: "b \<in> set ms" using ms by simp
  have nb: "node h b = Some (h ! b)" using oldo(2) [OF bm] by (simp add: node_def)
  have dr: "Iterator_deref h ?it = Some (Inr ?item)"
    using nb by (simp add: Iterator_deref_def value_at_def)
  have "filter (\<lambda>a. 0 < height h a) ms = ms"
    using pos by (intro filter_level0 [of ms]) auto
  with paths [of 0] have "path h 0 hd_o (pre @ b # rest)" unfolding ms by simp
  then have "path h 0 b rest" by (rule path_suffix)
  then have lb: "link h b 0 = Some (case rest of [] \<Rightarrow> None | c # _ \<Rightarrow> Some c)"
    by (cases rest) auto
  have ms': "ms = (pre @ [b]) @ rest" using ms by simp
  show ?case
  proof (cases "case dropWhile ?P ns of [] \<Rightarrow> False | c # _ \<Rightarrow> eq (value_at h c) ?item")
    case True
    from insert_nodes(1) [where eq = eq and v = ?item and mem = True, OF skt dwn True]
    have ins: "SkipList_insert lt eq True ?item h this = Some (Inr (), h, this)" .
    from lb have inc: "Iterator_incr h ?it = Some ?nxt"
      by (simp add: Iterator_incr_def)
    from Cons.IH [OF sko hdo skt hdt disj ms']
    obtain h'' this'' where rec: "copy_items lt eq h this ?nxt = Some (h'', this'')"
      and r1: "valid (not_greater lt) h'' this''"
      and r2: "skiplist (not_greater lt) h'' other ms"
      by blast
    have "copy_items lt eq h this ?it = Some (h'', this'')"
      using dr ins inc rec
      by (subst copy_items.simps)
        (simp add: Iterator_neq_def Iterator_eq_def SkipList_end_def)
    with r1 r2 show ?thesis by auto
  next
    case False
    define lows where "lows = takeWhile ?P ns"
    define highs where "highs = dropWhile ?P ns"
    have sets: "set lows \<union> set highs = set ns"
      unfolding lows_def highs_def by (metis set_append takeWhile_dropWhile_id)
    note fits = not_greater_fits [OF swo sortedt, of ?item]
    from insert_nodes(3) [where eq = eq and v = ?item, OF skt dwn False] fits
    obtain h' s' where ins: "SkipList_insert lt eq True ?item h this = Some (Inr (), h', s')"
      and skt': "skiplist (not_greater lt) h' s' (lows @ length h # highs)"
      and vals: "\<forall>b<length h. value_at h' b = value_at h b"
      and hts: "\<forall>b<length h. height h' b = height h b"
      and links: "\<forall>b j. b < length h \<longrightarrow> b \<notin> set (the (head this) # ns) \<longrightarrow>
                    link h' b j = link h b j"
      and hdt': "head s' = head this"
      unfolding lows_def highs_def by blast
    have frame: "height h' a = height h a \<and> value_at h' a = value_at h a \<and>
        (\<forall>j. link h' a j = link h a j)" if "a \<in> set (hd_o # ms)" for a
    proof -
      from that oldo have "a < length h" by auto
      moreover from that disj have "a \<notin> set (hd_t # ns)" by blast
      ultimately show ?thesis using vals hts links hdt by simp
    qed
    have sko': "skiplist (not_greater lt) h' other ms"
      using sko hdo frame by (rule skiplist_frame)
    from lb frame [of b] bm have inc: "Iterator_incr h' ?it = Some ?nxt"
      by (simp add: Iterator_incr_def)
    have hdt2: "head s' = Some hd_t" using hdt hdt' by simp
    have "length h \<notin> set (hd_o # ms)" using oldo by auto
    with disj sets have disj': "set (hd_t # lows @ length h # highs) \<inter> set (hd_o # ms) = {}"
      by auto
    from Cons.IH [OF sko' hdo skt' hdt2 disj' ms']
    obtain h'' this'' where rec: "copy_items lt eq h' s' ?nxt = Some (h'', this'')"
      and r1: "valid (not_greater lt) h'' this''"
      and r2: "skiplist (not_greater lt) h'' other ms"
      by blast
    have "copy_items lt eq h this ?it = Some (h'', this'')"
      using dr ins inc rec
      by (subst copy_items.simps)
        (simp add: Iterator_neq_def Iterator_eq_def SkipList_end_def)
    with r1 r2 show ?thesis by auto
  qed
qed

lemma copy_not_greater:
  assumes swo: "strict_weak_order lt" and v: "valid (not_greater lt) h s"
  shows "\<exists>h' s'. SkipList_copy lt eq dflt seed h s = Some (h', s') \<and>
           valid (not_greater lt) h' s' \<and> valid (not_greater lt) h' s"
proof -
  from v obtain ms where sk: "skiplist (not_greater lt) h s ms" by (auto simp: valid_def)
  from sk obtain hd_o where hd: "head s = Some hd_o" by (rule skiplistE) blast
  from sk hd have pos: "\<And>a. a \<in> set ms \<Longrightarrow> 0 < height h a \<and> height h a \<le> current_level s + 1"
    and paths: "\<And>i. i \<le> MAX_LEVEL \<Longrightarrow> path h i hd_o (filter (\<lambda>a. i < height h a) ms)"
    by (auto elim!: skiplistE)
  note old = skiplist_old(1,2) [OF sk hd]
  obtain h1 this where d: "SkipList_default dflt seed h = (h1, this)"
    by (cases "SkipList_default dflt seed h")
  then have h1: "h1 = h @ [Node_move dflt MAX_LEVEL]" and hdt: "head this = Some (length h)"
    by (auto simp: SkipList_default_def make_shared_def)
  have skt: "skiplist (not_greater lt) h1 this []"
    using default_skiplist [of "not_greater lt" dflt seed h] d by simp
  have frame: "height h1 a = height h a \<and> value_at h1 a = value_at h a \<and>
      (\<forall>j. link h1 a j = link h a j)" if "a \<in> set (hd_o # ms)" for a
  proof -
    from that old have "a < length h" by auto
    then show ?thesis unfolding h1 by (simp add: append_height append_value append_link)
  qed
  have sko: "skiplist (not_greater lt) h1 s ms"
    using sk hd frame by (rule skiplist_frame)
  have "filter (\<lambda>a. 0 < height h a) ms = ms"
    using pos by (intro filter_level0 [of ms]) auto
  with paths [of 0] have "path h 0 hd_o ([] @ ms)" by simp
  then have "link h (last [hd_o]) 0 = Some (case ms of [] \<Rightarrow> None | c # _ \<Rightarrow> Some c)"
    by (rule path_link_last)
  with frame [of hd_o] hd
  have bg: "SkipList_begin h1 s = Some \<lparr>current = (case ms of [] \<Rightarrow> None | c # _ \<Rightarrow> Some c)\<rparr>"
    by (simp add: SkipList_begin_def)
  have disj: "set (length h # []) \<inter> set (hd_o # ms) = {}"
    using old by auto
  have ms: "ms = [] @ ms" by simp
  from copy_items_not_greater [where eq = eq, OF swo sko hd skt hdt disj ms]
  obtain h' s' where c: "copy_items lt eq h1 this
        \<lparr>current = (case ms of [] \<Rightarrow> None | c # _ \<Rightarrow> Some c)\<rparr> = Some (h', s')"
    and r1: "valid (not_greater lt) h' s'" and r2: "skiplist (not_greater lt) h' s ms"
    by blast
  have "SkipList_copy lt eq dflt seed h s = Some (h', s')"
    using d bg c by (simp add: SkipList_copy_def)
  with r1 r2 show ?thesis by (auto simp: valid_def)
qed

lemma call_not_greater:
  assumes swo: "strict_weak_order lt" and v: "valid (not_greater lt) h s"
  shows "\<exists>h' s'. call lt eq dflt c (h, s) = Some (h', s') \<and> valid (not_greater lt) h' s'"
proof -
  from valid_iterate [OF v] obtain xs where it: "iterate h s = Some xs" by blast
  show ?thesis
  proof (cases c)
    case (Insert x)
    from insert_not_greater [OF swo v it, of eq x] show ?thesis
      unfolding Insert by auto
  next
    case (Insert_rvalue x)
    from insert_not_greater [OF swo v it, of eq x] show ?thesis
      unfolding Insert_rvalue by (auto simp: insert_rvalue_eq)
  next
    case (Erase x)
    from erase_not_greater [OF swo v it, of eq x] show ?thesis
      unfolding Erase by auto
  next
    case (Find x)
    from find_values [OF v swo_downward [OF swo] it, of eq x] v show ?thesis
      unfolding Find by auto
  next
    case Clear
    have "valid (not_greater lt) (fst (SkipList_clear dflt h s)) (snd (SkipList_clear dflt h s))"
      unfolding valid_def by (rule exI [of _ "[]"]) (rule clear_skiplist)
    then show ?thesis unfolding Clear by (cases "SkipList_clear dflt h s") simp
  next
    case Move_construct
    have "fst (SkipList_move s) = s" by (cases s) (simp add: SkipList_move_def)
    with v show ?thesis unfolding Move_construct by simp
  next
    case (Copy_construct seed)
    from copy_not_greater [OF swo v, of eq dflt seed] show ?thesis
      unfolding Copy_construct by auto
  next
    case (Move_assign this)
    from v show ?thesis
      unfolding Move_assign by (simp add: move_assign_valid)
  next
    case (Copy_assign this seed)
    from copy_not_greater [OF swo v, of eq dflt seed]
    obtain h' t where c: "SkipList_copy lt eq dflt seed h s = Some (h', t)"
      and vt: "valid (not_greater lt) h' t"
      by blast
    let ?r = "fst (swap_lists this t)"
    note f = swap_lists_fields [of this t]
    from vt obtain ns where sk: "skiplist (not_greater lt) h' t ns" by (auto simp: valid_def)
    then have "current_level t \<le> MAX_LEVEL" by (auto elim!: skiplistE)
    with f have "skiplist (not_greater lt) h' ?r ns" by (intro skiplist_level [OF sk]) simp_all
    then have "valid (not_greater lt) h' ?r" by (auto simp: valid_def)
    with c show ?thesis
      unfolding Copy_assign by (simp add: SkipList_copy_assign_def)
  qed
qed

text \<open>
  Every list that a sequence of calls builds from a new list, whatever \<open>operator==\<close>
  is, holds values that do not descend.
\<close>

lemma run_not_greater:
  assumes swo: "strict_weak_order lt"
  shows "valid (not_greater lt) h s \<Longrightarrow>
         \<exists>h' s'. run lt eq dflt cs (h, s) = Some (h', s') \<and> valid (not_greater lt) h' s'"
proof (induction cs arbitrary: h s)
  case Nil
  then show ?case by simp
next
  case (Cons c cs)
  from call_not_greater [OF swo Cons.prems, of eq dflt c]
  obtain h1 s1 where c: "call lt eq dflt c (h, s) = Some (h1, s1)"
    and v1: "valid (not_greater lt) h1 s1"
    by blast
  from Cons.IH [OF v1] c show ?case by simp
qed

subsection \<open>The example\<close>

lemma int_strict_weak_order: "strict_weak_order ((<) :: int \<Rightarrow> int \<Rightarrow> bool)"
  by (auto simp: strict_weak_order_def derived_eq_def)

lemma int_consistent_eq: "consistent_eq ((<) :: int \<Rightarrow> int \<Rightarrow> bool) (=)"
  by (auto simp: consistent_eq_def derived_eq_def)

lemma example_skiplist: "skiplist (<) example_heap example_list [2, 1, 3]"
  unfolding skiplist_def
  by (auto simp: example_heap_def example_list_def height_def node_def MAX_LEVEL_def
      value_at_def link_def nth_Cons split: nat.splits)

lemma example_valid: "valid (<) example_heap example_list"
  unfolding valid_def using example_skiplist by (rule exI)

lemma example_iterate: "iterate example_heap example_list = Some [3, 5, 7]"
  by code_simp

text \<open>The example is what the three calls of the test build.\<close>

lemma example_reached:
  "map_option (\<lambda>(h, s). (h, head s, current_level s, size_m s))
     (run (<) (=) 0 [Insert 5, Insert 3, Insert 7] (SkipList_default 0 (\<lambda>n. 1 / 2) [])) =
   Some (example_heap, Some 0, 0, 3)"
  by code_simp

text \<open>
  \<open>CustomType\<close> of the tests: its \<open>operator<\<close> is a strict weak ordering, and its
  \<open>operator==\<close> is not the equivalence that \<open>operator<\<close> induces.
\<close>

lemma custom_strict_weak_order: "strict_weak_order custom_less"
  by (auto simp: strict_weak_order_def derived_eq_def custom_less_def)

lemma custom_not_consistent: "\<not> consistent_eq custom_less (=)"
proof
  assume "consistent_eq custom_less (=)"
  then have e: "\<forall>a b. (a = b) = derived_eq custom_less a b"
    unfolding consistent_eq_def .
  have "((2, ''two'') = (2 :: int, ''deux'')) =
        derived_eq custom_less (2, ''two'') (2, ''deux'')"
    by (rule e [THEN spec, THEN spec])
  then show False by (simp add: derived_eq_def custom_less_def)
qed

lemma custom_skiplist: "skiplist custom_less custom_heap custom_list [1]"
  unfolding skiplist_def
  by (auto simp: custom_heap_def custom_list_def height_def node_def MAX_LEVEL_def
      value_at_def link_def nth_Cons split: nat.splits)

lemma custom_valid: "valid custom_less custom_heap custom_list"
  unfolding valid_def using custom_skiplist by (rule exI)

lemma custom_iterate: "iterate custom_heap custom_list = Some [(2, ''two'')]"
  by code_simp

text \<open>The list of two equivalent elements is what two calls of \<open>insert\<close> build.\<close>

lemma custom_pair_reached:
  "map_option (\<lambda>(h, s). (h, head s, current_level s, size_m s))
     (run custom_less (=) (0, []) [Insert (2, ''two''), Insert (2, ''deux'')]
        (SkipList_default (0, []) (\<lambda>n. 1 / 2) [])) =
   Some (custom_pair_heap, Some 0, 0, 2)"
  by code_simp

lemma custom_pair_skiplist:
  "skiplist (not_greater custom_less) custom_pair_heap custom_pair_list [2, 1]"
  unfolding skiplist_def
  by (auto simp: custom_pair_heap_def custom_pair_list_def height_def node_def MAX_LEVEL_def
      value_at_def link_def nth_Cons not_greater_def custom_less_def split: nat.splits)

lemma custom_pair_valid: "valid (not_greater custom_less) custom_pair_heap custom_pair_list"
  unfolding valid_def using custom_pair_skiplist by (rule exI)

lemma custom_pair_iterate:
  "iterate custom_pair_heap custom_pair_list = Some [(2, ''deux''), (2, ''two'')]"
  by code_simp

subsection \<open>Ordered iteration\<close>

text \<open>
  C1, as stated, fails. \<open>CustomType\<close> has a strict weak \<open>operator<\<close>, but its
  \<open>operator==\<close> tells \<open>(2, "two")\<close> from \<open>(2, "deux")\<close>, neither of which is less
  than the other. After inserting both, the traversal of level 0 visits \<open>(2, "deux")\<close>
  and then \<open>(2, "two")\<close>: not in strictly ascending order. And after the move
  constructor returns, the traversal of level 0 from the head of its source has no defined
  result, as that head is null.
\<close>

theorem iteration_not_strictly_ascending:
  "strict_weak_order custom_less \<and> \<not> consistent_eq custom_less (=) \<and>
   map_option (\<lambda>(h, s). iterate h s)
     (run custom_less (=) (0, []) [Insert (2, ''two''), Insert (2, ''deux'')]
        (SkipList_default (0, []) (\<lambda>n. 1 / 2) [])) =
     Some (Some [(2, ''deux''), (2, ''two'')]) \<and>
   \<not> sorted_wrt custom_less [(2, ''deux''), (2, ''two'')] \<and>
   iterate example_heap example_list = Some [3, 5, 7] \<and>
   iterate example_heap (snd (SkipList_move example_list)) = None"
proof -
  have "map_option (\<lambda>(h, s). iterate h s)
     (run custom_less (=) (0, []) [Insert (2, ''two''), Insert (2, ''deux'')]
        (SkipList_default (0, []) (\<lambda>n. 1 / 2) [])) =
     Some (Some [(2, ''deux''), (2, ''two'')])"
    by code_simp
  moreover have "\<not> sorted_wrt custom_less [(2, ''deux''), (2, ''two'')]"
    by (simp add: custom_less_def)
  moreover have "iterate example_heap (snd (SkipList_move example_list)) = None"
    by (simp add: iterate_def SkipList_begin_def SkipList_move_def)
  ultimately show ?thesis using custom_strict_weak_order custom_not_consistent example_iterate by blast
qed

text \<open>
  C1, amended. For an element type whose \<open>operator==\<close> agrees with the equivalence that
  its strict weak \<open>operator<\<close> induces, and for every list but the source of a move:
  after every sequence of calls of the public operations on a newly constructed list
  (\<open>insert\<close>, \<open>erase\<close>, \<open>find\<close>, \<open>clear\<close>, and going over to the object that a
  copy or move constructor constructs or to which a copy or move assignment assigns), every
  call returns and the traversal of level 0 from the head terminates and yields the values
  in strictly ascending order under \<open>lt\<close>, each real node once (as many values as
  \<open>size_\<close> counts, no two the same). Consequently, after inserting any sequence \<open>S\<close>,
  full iteration yields the distinct elements of \<open>S\<close> in ascending order: strictly
  ascending, only elements of \<open>S\<close>, and for every element of \<open>S\<close> one that equals it;
  where equal values are the same value, these are exactly the elements of \<open>S\<close>.
\<close>

theorem ordered_iteration:
  assumes swo: "strict_weak_order lt" and cons: "consistent_eq lt eq"
  shows "(\<exists>h s xs. run lt eq dflt calls (SkipList_default dflt seed h0) = Some (h, s) \<and>
            iterate h s = Some xs \<and> sorted_wrt lt xs \<and> distinct xs \<and>
            length xs = SkipList_size s) \<and>
         (\<exists>h s xs. run lt eq dflt (map Insert S) (SkipList_default dflt seed h0) = Some (h, s) \<and>
            iterate h s = Some xs \<and> sorted_wrt lt xs \<and> distinct xs \<and>
            set xs \<subseteq> set S \<and> (\<forall>v\<in>set S. \<exists>x\<in>set xs. eq x v) \<and>
            ((\<forall>a b. eq a b \<longrightarrow> a = b) \<longrightarrow> set xs = set S))"
proof -
  obtain h1 s1 where d: "SkipList_default dflt seed h0 = (h1, s1)"
    by (cases "SkipList_default dflt seed h0")
  note v1 = default_valid [OF d, of lt] and i1 = default_iterate [OF d]
  note irr = swo_irrefl [OF swo]
  from run_valid [OF swo cons v1, of dflt calls]
  obtain h s where r: "run lt eq dflt calls (h1, s1) = Some (h, s)" and v: "valid lt h s"
    by blast
  from valid_iterate [OF v] obtain xs where "iterate h s = Some xs" and "sorted_wrt lt xs"
    and "length xs = size_m s"
    by blast
  with r sorted_wrt_distinct [of lt xs] irr
  have 1: "\<exists>h s xs. run lt eq dflt calls (SkipList_default dflt seed h0) = Some (h, s) \<and>
            iterate h s = Some xs \<and> sorted_wrt lt xs \<and> distinct xs \<and>
            length xs = SkipList_size s"
    unfolding d SkipList_size_def by blast
  from insert_sequence [OF swo cons v1 i1, of dflt S]
  obtain h' s' ys where r': "run lt eq dflt (map Insert S) (h1, s1) = Some (h', s')"
    and v': "valid lt h' s'" and it': "iterate h' s' = Some ys"
    and sub: "set ys \<subseteq> set S" and all: "\<forall>v\<in>set S. \<exists>x\<in>set ys. eq x v"
    by auto
  from valid_iterate [OF v'] it' have "sorted_wrt lt ys" by simp
  moreover have "set ys = set S" if "\<forall>a b. eq a b \<longrightarrow> a = b"
    using that sub all by blast
  ultimately
  have 2: "\<exists>h s xs. run lt eq dflt (map Insert S) (SkipList_default dflt seed h0) = Some (h, s) \<and>
            iterate h s = Some xs \<and> sorted_wrt lt xs \<and> distinct xs \<and>
            set xs \<subseteq> set S \<and> (\<forall>v\<in>set S. \<exists>x\<in>set xs. eq x v) \<and>
            ((\<forall>a b. eq a b \<longrightarrow> a = b) \<longrightarrow> set xs = set S)"
    using r' it' sub all sorted_wrt_distinct [of lt ys] irr unfolding d by blast
  from 1 2 show ?thesis ..
qed

theorem ordered_iteration_witness:
  "strict_weak_order ((<) :: int \<Rightarrow> int \<Rightarrow> bool) \<and>
   consistent_eq ((<) :: int \<Rightarrow> int \<Rightarrow> bool) (=) \<and>
   (\<exists>h s xs.
      run (<) (=) 0
        [Insert 5, Insert 3, Erase 5, Find 3, Move_construct, Insert 7,
         Copy_construct example_seed, Insert 9, Move_assign example_list, Insert 8,
         Copy_assign example_list example_seed, Clear, Insert_rvalue 4, Insert 1]
        (SkipList_default (0 :: int) example_seed []) = Some (h, s) \<and>
      iterate h s = Some xs \<and> sorted_wrt (<) xs \<and> distinct xs \<and>
      length xs = SkipList_size s) \<and>
   (\<exists>h s xs.
      run (<) (=) 0 (map Insert [5, 3, 7, 5]) (SkipList_default (0 :: int) example_seed []) =
        Some (h, s) \<and>
      iterate h s = Some xs \<and> sorted_wrt (<) xs \<and> distinct xs \<and>
      set xs = set [5, 3, 7, 5]) \<and>
   map_option (\<lambda>(h, s). (iterate h s, SkipList_size s))
     (run (<) (=) 0 (map Insert [5, 3, 7, 5]) (SkipList_default (0 :: int) example_seed [])) =
     Some (Some [3, 5, 7], 3)"
proof -
  have "map_option (\<lambda>(h, s). (iterate h s, SkipList_size s))
     (run (<) (=) 0 (map Insert [5, 3, 7, 5]) (SkipList_default (0 :: int) example_seed [])) =
     Some (Some [3, 5, 7], 3)"
    by code_simp
  with ordered_iteration [OF int_strict_weak_order int_consistent_eq,
      where dflt = 0 and seed = example_seed and ?h0.0 = "[]"
        and calls = "[Insert 5, Insert 3, Erase 5, Find 3, Move_construct, Insert 7,
                      Copy_construct example_seed, Insert 9, Move_assign example_list, Insert 8,
                      Copy_assign example_list example_seed, Clear, Insert_rvalue 4, Insert 1]"
        and S = "[5, 3, 7, 5]"]
    int_strict_weak_order int_consistent_eq
  show ?thesis by blast
qed

text \<open>For a linear order with its own equality, the sequence is the sorted list of the set.\<close>

lemma linorder_strict_weak_order: "strict_weak_order ((<) :: 'a :: linorder \<Rightarrow> 'a \<Rightarrow> bool)"
  by (auto simp: strict_weak_order_def derived_eq_def)

lemma linorder_consistent_eq: "consistent_eq ((<) :: 'a :: linorder \<Rightarrow> 'a \<Rightarrow> bool) (=)"
  by (auto simp: consistent_eq_def derived_eq_def)

lemma insert_sequence_linorder:
  fixes S :: "'a :: linorder list"
  shows "\<exists>h s. run (<) (=) dflt (map Insert S) (SkipList_default dflt seed h0) = Some (h, s) \<and>
           iterate h s = Some (sorted_list_of_set (set S)) \<and>
           SkipList_size s = card (set S)"
proof -
  obtain h1 s1 where d: "SkipList_default dflt seed h0 = (h1, s1)"
    by (cases "SkipList_default dflt seed h0")
  note v1 = default_valid [OF d, of "(<)"] and i1 = default_iterate [OF d]
  from insert_sequence [OF linorder_strict_weak_order linorder_consistent_eq v1 i1, of dflt S]
  obtain h s xs where r: "run (<) (=) dflt (map Insert S) (h1, s1) = Some (h, s)"
    and v: "valid (<) h s" and it: "iterate h s = Some xs"
    and sub: "set xs \<subseteq> set S" and all: "\<forall>v\<in>set S. \<exists>x\<in>set xs. x = v"
    by auto
  from valid_iterate [OF v] it have sorted: "sorted_wrt (<) xs" and sz: "length xs = size_m s"
    by simp_all
  from sub all have e: "set xs = set S" by auto
  from sorted have sd: "sorted xs" "distinct xs" by (simp_all add: strict_sorted_iff)
  then have "sorted_list_of_set (set xs) = xs"
    by (rule sorted_list_of_set.idem_if_sorted_distinct)
  moreover have "card (set xs) = length xs" using sd(2) by (rule distinct_card)
  ultimately show ?thesis using r it sz e unfolding d SkipList_size_def by auto
qed

subsection \<open>\<open>find\<close>\<close>

text \<open>
  C2, as stated, fails. In the set built by inserting \<open>(2, "two")\<close> and
  \<open>(2, "deux")\<close> of \<open>CustomType\<close>, \<open>find((2, "two"))\<close> returns the end iterator,
  although \<open>(2, "two")\<close> is in the set: the search stops at \<open>(2, "deux")\<close>, the first
  element that is not less, and \<open>operator==\<close> tells the two apart.
\<close>

theorem find_misses_stored_value:
  "strict_weak_order custom_less \<and> \<not> consistent_eq custom_less (=) \<and>
   map_option (\<lambda>(h, s). (iterate h s, SkipList_find custom_less (=) (2, ''two'') h s))
     (run custom_less (=) (0, []) (map Insert [(2, ''two''), (2, ''deux'')])
        (SkipList_default (0, []) (\<lambda>n. 1 / 2) [])) =
     Some (Some [(2, ''deux''), (2, ''two'')], Some SkipList_end) \<and>
   (2, ''two'') \<in> set [(2 :: int, ''deux''), (2, ''two'')]"
proof -
  have "map_option (\<lambda>(h, s). (iterate h s, SkipList_find custom_less (=) (2, ''two'') h s))
     (run custom_less (=) (0, []) (map Insert [(2, ''two''), (2, ''deux'')])
        (SkipList_default (0, []) (\<lambda>n. 1 / 2) [])) =
     Some (Some [(2, ''deux''), (2, ''two'')], Some SkipList_end)"
    by code_simp
  moreover have "(2, ''two'') \<in> set [(2 :: int, ''deux''), (2, ''two'')]" by simp
  ultimately show ?thesis using custom_strict_weak_order custom_not_consistent by blast
qed

text \<open>
  C2, amended. For an element type whose \<open>operator==\<close> agrees with the equivalence that
  its strict weak \<open>operator<\<close> induces: for the set built on a new list by inserting any
  sequence \<open>S\<close>, and every value \<open>v\<close>, \<open>find(v)\<close> returns, and it returns the end
  iterator if and only if no element of \<open>S\<close> equals \<open>v\<close>; otherwise the iterator it
  returns can be dereferenced and yields a value equal to \<open>v\<close>.
\<close>

theorem find_correct:
  assumes swo: "strict_weak_order lt" and cons: "consistent_eq lt eq"
  shows "\<exists>h s it. run lt eq dflt (map Insert S) (SkipList_default dflt seed h0) = Some (h, s) \<and>
           SkipList_find lt eq v h s = Some it \<and>
           (Iterator_eq it SkipList_end \<longleftrightarrow> \<not> (\<exists>x\<in>set S. eq x v)) \<and>
           (Iterator_neq it SkipList_end \<longrightarrow>
              (\<exists>x. Iterator_deref h it = Some (Inr x) \<and> eq x v))"
proof -
  obtain h1 s1 where d: "SkipList_default dflt seed h0 = (h1, s1)"
    by (cases "SkipList_default dflt seed h0")
  note v1 = default_valid [OF d, of lt] and i1 = default_iterate [OF d]
  note tr = swo_transp [OF swo]
  from insert_sequence [OF swo cons v1 i1, of dflt S]
  obtain h s xs where r: "run lt eq dflt (map Insert S) (h1, s1) = Some (h, s)"
    and vl: "valid lt h s" and it: "iterate h s = Some xs"
    and sub: "set xs \<subseteq> set S" and all: "\<forall>v\<in>set S. \<exists>x\<in>set xs. eq x v"
    by auto
  from valid_iterate [OF vl] it have sorted: "sorted_wrt lt xs" by simp
  have mem: "(\<exists>x\<in>set S. eq x v) \<longleftrightarrow> found lt eq v xs"
  proof -
    have "\<exists>y\<in>set xs. eq y v" if "x \<in> set S" and "eq x v" for x
    proof -
      from all that obtain y where y: "y \<in> set xs" and "eq y x" by blast
      with that cons have "derived_eq lt y x" and "derived_eq lt x v"
        by (simp_all add: consistent_eq_def)
      then have "derived_eq lt y v" by (rule swo_equiv [OF swo])
      with cons y show ?thesis by (auto simp: consistent_eq_def)
    qed
    with sub found_member [OF sorted tr cons, of v] show ?thesis by blast
  qed
  from find_values [OF vl downward_lt [OF tr] it, of eq v]
  obtain i where f: "SkipList_find lt eq v h s = Some i"
    and e: "Iterator_eq i SkipList_end \<longleftrightarrow> \<not> found lt eq v xs"
    and dr: "found lt eq v xs \<longrightarrow>
               Iterator_deref h i = Some (Inr (hd (dropWhile (\<lambda>x. lt x v) xs)))"
    by blast
  have "eq (hd (dropWhile (\<lambda>x. lt x v) xs)) v" if "found lt eq v xs"
    using that by (auto simp: found_def split: list.splits)
  with r f e dr mem show ?thesis
    unfolding d Iterator_neq_def by auto
qed

theorem find_correct_witness:
  "strict_weak_order ((<) :: int \<Rightarrow> int \<Rightarrow> bool) \<and>
   consistent_eq ((<) :: int \<Rightarrow> int \<Rightarrow> bool) (=) \<and>
   (\<exists>h s it.
      run (<) (=) 0 (map Insert [5, 3, 7]) (SkipList_default (0 :: int) example_seed []) =
        Some (h, s) \<and>
      SkipList_find (<) (=) 5 h s = Some it \<and>
      (Iterator_eq it SkipList_end \<longleftrightarrow> \<not> (\<exists>x\<in>set [5, 3, 7]. x = 5)) \<and>
      (Iterator_neq it SkipList_end \<longrightarrow> (\<exists>x. Iterator_deref h it = Some (Inr x) \<and> x = 5))) \<and>
   (\<exists>x\<in>set [5, 3, 7 :: int]. x = 5) \<and>
   map_option (\<lambda>(h, s). (map_option (Iterator_deref h) (SkipList_find (<) (=) 5 h s),
                          SkipList_find (<) (=) 99 h s))
     (run (<) (=) 0 (map Insert [5, 3, 7]) (SkipList_default (0 :: int) example_seed [])) =
     Some (Some (Some (Inr 5)), Some SkipList_end)"
proof -
  have "map_option (\<lambda>(h, s). (map_option (Iterator_deref h) (SkipList_find (<) (=) 5 h s),
                          SkipList_find (<) (=) 99 h s))
     (run (<) (=) 0 (map Insert [5, 3, 7]) (SkipList_default (0 :: int) example_seed [])) =
     Some (Some (Some (Inr 5)), Some SkipList_end)"
    by code_simp
  with find_correct [OF int_strict_weak_order int_consistent_eq,
      where dflt = 0 and seed = example_seed and ?h0.0 = "[]" and S = "[5, 3, 7]" and v = 5]
    int_strict_weak_order int_consistent_eq
  show ?thesis by simp
qed

subsection \<open>\<open>insert\<close> of a value that is present\<close>

text \<open>
  C5, as stated, fails. The set built by inserting \<open>(2, "two")\<close> and \<open>(2, "deux")\<close>
  of \<open>CustomType\<close> holds \<open>(2, "two")\<close>; yet one more \<open>insert((2, "two"))\<close> raises
  \<open>size()\<close> from 2 to 3 and puts a second \<open>(2, "two")\<close> in front.
\<close>

theorem insert_of_stored_value_grows:
  "strict_weak_order custom_less \<and> \<not> consistent_eq custom_less (=) \<and>
   map_option (\<lambda>(h, s). (SkipList_size s, iterate h s))
     (run custom_less (=) (0, []) [Insert (2, ''two''), Insert (2, ''deux'')]
        (SkipList_default (0, []) (\<lambda>n. 1 / 2) [])) =
     Some (2, Some [(2, ''deux''), (2, ''two'')]) \<and>
   map_option (\<lambda>(h, s). (SkipList_size s, iterate h s))
     (run custom_less (=) (0, []) [Insert (2, ''two''), Insert (2, ''deux''), Insert (2, ''two'')]
        (SkipList_default (0, []) (\<lambda>n. 1 / 2) [])) =
     Some (3, Some [(2, ''two''), (2, ''deux''), (2, ''two'')])"
proof -
  have "map_option (\<lambda>(h, s). (SkipList_size s, iterate h s))
     (run custom_less (=) (0, []) [Insert (2, ''two''), Insert (2, ''deux'')]
        (SkipList_default (0, []) (\<lambda>n. 1 / 2) [])) =
     Some (2, Some [(2, ''deux''), (2, ''two'')])"
    by code_simp
  moreover have "map_option (\<lambda>(h, s). (SkipList_size s, iterate h s))
     (run custom_less (=) (0, []) [Insert (2, ''two''), Insert (2, ''deux''), Insert (2, ''two'')]
        (SkipList_default (0, []) (\<lambda>n. 1 / 2) [])) =
     Some (3, Some [(2, ''two''), (2, ''deux''), (2, ''two'')])"
    by code_simp
  ultimately show ?thesis using custom_strict_weak_order custom_not_consistent by blast
qed

text \<open>
  C5, amended. For an element type whose \<open>operator==\<close> agrees with the equivalence that
  its strict weak \<open>operator<\<close> induces: in every well-formed set, for every value \<open>v\<close>
  that equals one of its elements, \<open>insert(v)\<close> (either overload, whatever the allocator
  would do) returns and leaves the store and the object as they are: \<open>size()\<close> and the
  sequence of full iteration do not change.
\<close>

theorem insert_duplicate_noop:
  assumes swo: "strict_weak_order lt" and cons: "consistent_eq lt eq"
    and v: "valid lt h s" and it: "iterate h s = Some xs" and mem: "\<exists>x\<in>set xs. eq x v"
  shows "SkipList_insert lt eq mem_ok v h s = Some (Inr (), h, s) \<and>
         SkipList_insert_rvalue lt eq mem_ok v h s = Some (Inr (), h, s)"
proof -
  note tr = swo_transp [OF swo]
  from valid_iterate [OF v] it have "sorted_wrt lt xs" by simp
  from found_member [OF this tr cons, of v] mem have "found lt eq v xs" by simp
  from insert_values(1) [OF v downward_lt [OF tr] it this] show ?thesis
    by (simp add: insert_rvalue_eq)
qed

theorem insert_duplicate_noop_witness:
  "strict_weak_order ((<) :: int \<Rightarrow> int \<Rightarrow> bool) \<and>
   consistent_eq ((<) :: int \<Rightarrow> int \<Rightarrow> bool) (=) \<and>
   valid (<) example_heap example_list \<and>
   iterate example_heap example_list = Some [3, 5, 7] \<and>
   (\<exists>x\<in>set [3, 5, 7 :: int]. x = 5) \<and>
   SkipList_insert (<) (=) True 5 example_heap example_list =
     Some (Inr (), example_heap, example_list) \<and>
   SkipList_insert_rvalue (<) (=) True 5 example_heap example_list =
     Some (Inr (), example_heap, example_list)"
proof -
  have m: "\<exists>x\<in>set [3, 5, 7 :: int]. x = 5" by simp
  from insert_duplicate_noop [OF int_strict_weak_order int_consistent_eq example_valid
      example_iterate m, of True]
    int_strict_weak_order int_consistent_eq example_valid example_iterate m
  show ?thesis by blast
qed

subsection \<open>\<open>erase\<close>\<close>

text \<open>
  C6, as stated, fails. In the set built by inserting \<open>(2, "two")\<close> and
  \<open>(2, "deux")\<close> of \<open>CustomType\<close>, \<open>erase((2, "two"))\<close> returns \<open>false\<close> and
  removes nothing, although \<open>(2, "two")\<close> is in the set.
\<close>

theorem erase_misses_stored_value:
  "strict_weak_order custom_less \<and> \<not> consistent_eq custom_less (=) \<and>
   map_option (\<lambda>(h, s). (iterate h s, SkipList_size s,
       map_option (\<lambda>(b, h', s'). (b, iterate h' s', SkipList_size s'))
         (SkipList_erase custom_less (=) (2, ''two'') h s)))
     (run custom_less (=) (0, []) [Insert (2, ''two''), Insert (2, ''deux'')]
        (SkipList_default (0, []) (\<lambda>n. 1 / 2) [])) =
     Some (Some [(2, ''deux''), (2, ''two'')], 2,
           Some (False, Some [(2, ''deux''), (2, ''two'')], 2)) \<and>
   (2, ''two'') \<in> set [(2 :: int, ''deux''), (2, ''two'')]"
proof -
  have "map_option (\<lambda>(h, s). (iterate h s, SkipList_size s,
       map_option (\<lambda>(b, h', s'). (b, iterate h' s', SkipList_size s'))
         (SkipList_erase custom_less (=) (2, ''two'') h s)))
     (run custom_less (=) (0, []) [Insert (2, ''two''), Insert (2, ''deux'')]
        (SkipList_default (0, []) (\<lambda>n. 1 / 2) [])) =
     Some (Some [(2, ''deux''), (2, ''two'')], 2,
           Some (False, Some [(2, ''deux''), (2, ''two'')], 2))"
    by code_simp
  moreover have "(2, ''two'') \<in> set [(2 :: int, ''deux''), (2, ''two'')]" by simp
  ultimately show ?thesis using custom_strict_weak_order custom_not_consistent by blast
qed

text \<open>
  C6, amended. For an element type whose \<open>operator==\<close> agrees with the equivalence that
  its strict weak \<open>operator<\<close> induces: in every well-formed set with the values \<open>xs\<close>,
  \<open>erase(v)\<close> returns. It returns \<open>true\<close> exactly when an element equals \<open>v\<close>; then
  the values left are \<open>xs\<close> without the one element that equals \<open>v\<close>, and \<open>size_\<close>
  is one less. Otherwise it returns \<open>false\<close> and the store and the object are as before.
  The set stays well formed.
\<close>

theorem erase_correct:
  assumes swo: "strict_weak_order lt" and cons: "consistent_eq lt eq"
    and v: "valid lt h s" and it: "iterate h s = Some xs"
  shows "\<exists>b h' s'. SkipList_erase lt eq v h s = Some (b, h', s') \<and> valid lt h' s' \<and>
           (b \<longleftrightarrow> (\<exists>x\<in>set xs. eq x v)) \<and>
           iterate h' s' = Some (filter (\<lambda>x. \<not> eq x v) xs) \<and>
           (if b then size_m s' + 1 = size_m s \<and>
                      length (filter (\<lambda>x. \<not> eq x v) xs) + 1 = length xs
            else h' = h \<and> s' = s)"
  using swo cons v it by (rule erase_contents)

theorem erase_correct_witness:
  "strict_weak_order ((<) :: int \<Rightarrow> int \<Rightarrow> bool) \<and>
   consistent_eq ((<) :: int \<Rightarrow> int \<Rightarrow> bool) (=) \<and>
   valid (<) example_heap example_list \<and>
   iterate example_heap example_list = Some [3, 5, 7] \<and>
   (\<exists>b h' s'. SkipList_erase (<) (=) 5 example_heap example_list = Some (b, h', s') \<and>
      valid (<) h' s' \<and> (b \<longleftrightarrow> (\<exists>x\<in>set [3, 5, 7 :: int]. x = 5)) \<and>
      iterate h' s' = Some [3, 7] \<and> size_m s' + 1 = size_m example_list) \<and>
   (\<exists>b h' s'. SkipList_erase (<) (=) 4 example_heap example_list = Some (b, h', s') \<and>
      \<not> b \<and> h' = example_heap \<and> s' = example_list)"
proof -
  from erase_correct [OF int_strict_weak_order int_consistent_eq example_valid
      example_iterate, of 5]
  have 1: "\<exists>b h' s'. SkipList_erase (<) (=) 5 example_heap example_list = Some (b, h', s') \<and>
      valid (<) h' s' \<and> (b \<longleftrightarrow> (\<exists>x\<in>set [3, 5, 7 :: int]. x = 5)) \<and>
      iterate h' s' = Some [3, 7] \<and> size_m s' + 1 = size_m example_list"
    by auto
  from erase_correct [OF int_strict_weak_order int_consistent_eq example_valid
      example_iterate, of 4]
  have 2: "\<exists>b h' s'. SkipList_erase (<) (=) 4 example_heap example_list = Some (b, h', s') \<and>
      \<not> b \<and> h' = example_heap \<and> s' = example_list"
    by auto
  from 1 2 int_strict_weak_order int_consistent_eq example_valid example_iterate
  show ?thesis by blast
qed

subsection \<open>The erased node\<close>

text \<open>
  C9. \<open>erase(v)\<close> changes no value and no link but links that pointed to the removed
  node. The removed node keeps its value and all its links, so an iterator positioned on
  it (the one \<open>find(v)\<close> returned before) still dereferences to the erased value after
  the call, and \<open>++\<close> takes it where it would have gone before: to the end, or to the
  former level-0 successor, which \<open>find\<close> still finds in the set.
\<close>

theorem erase_leaves_node:
  assumes swo: "strict_weak_order lt" and cons: "consistent_eq lt eq"
    and v: "valid lt h s"
    and f: "SkipList_find lt eq v h s = Some it" and ne: "Iterator_neq it SkipList_end"
  shows "\<exists>h' s' c x nxt.
           SkipList_erase lt eq v h s = Some (True, h', s') \<and> current it = Some c \<and>
           (\<forall>b. value_at h' b = value_at h b) \<and> (\<forall>j. link h' c j = link h c j) \<and>
           (\<forall>b j. link h' b j = link h b j \<or> link h b j = Some (Some c)) \<and>
           Iterator_deref h it = Some (Inr x) \<and> Iterator_deref h' it = Some (Inr x) \<and> eq x v \<and>
           Iterator_incr h it = Some nxt \<and> Iterator_incr h' it = Some nxt \<and>
           (Iterator_eq nxt SkipList_end \<or>
            (\<exists>y. Iterator_deref h' nxt = Some (Inr y) \<and>
                 SkipList_find lt eq y h' s' = Some nxt))"
proof -
  note tr = swo_transp [OF swo] and irr = swo_irrefl [OF swo]
  let ?P = "\<lambda>b. lt (value_at h b) v"
  from v obtain ns where sk: "skiplist lt h s ns" by (auto simp: valid_def)
  from sk have sorted: "sorted_wrt (\<lambda>a b. lt (value_at h a) (value_at h b)) ns"
    by (auto elim!: skiplistE)
  from find_spec [OF sk downward_lt [OF tr], where eq = eq and v = v] f
  have it: "it = \<lparr>current = (case dropWhile ?P ns of [] \<Rightarrow> None
                              | c # _ \<Rightarrow> if eq (value_at h c) v then Some c else None)\<rparr>"
    by simp
  obtain c cs where c: "dropWhile ?P ns = c # cs" and e: "eq (value_at h c) v"
  proof (cases "dropWhile ?P ns")
    case Nil
    from ne show ?thesis
      unfolding it Nil by (simp add: Iterator_neq_def Iterator_eq_def SkipList_end_def)
  next
    case (Cons c cs)
    from ne have "eq (value_at h c) v"
      unfolding it Cons
      by (simp add: Iterator_neq_def Iterator_eq_def SkipList_end_def split: if_splits)
    with Cons that show ?thesis by blast
  qed
  have itc: "it = \<lparr>current = Some c\<rparr>" unfolding it c using e by simp
  define lows where "lows = takeWhile ?P ns"
  have ns: "ns = lows @ c # cs" unfolding lows_def c [symmetric] by simp
  from erase_frame [where eq = eq and v = v, OF sk tr c e]
  obtain h' s' where r: "SkipList_erase lt eq v h s = Some (True, h', s')"
    and sk': "skiplist lt h' s' (lows @ cs)"
    and len: "length h' = length h" and vals: "\<forall>b. value_at h' b = value_at h b"
    and lc: "\<forall>j. link h' c j = link h c j"
    and fr: "\<forall>b j. link h' b j = link h b j \<or>
                   link h b j = Some (Some c) \<and> link h' b j = link h c j"
    and l0: "link h c 0 = Some (case cs of [] \<Rightarrow> None | d # _ \<Rightarrow> Some d)"
    unfolding lows_def by blast
  have old: "node h a = Some (h ! a) \<and> node h' a = Some (h' ! a)" if "a \<in> set ns" for a
    using skiplist_node(2) [OF sk that] len by (simp add: node_def)
  have cn: "c \<in> set ns" using ns by simp
  have d1: "Iterator_deref h it = Some (Inr (value_at h c))"
    unfolding itc using old [OF cn] by (simp add: Iterator_deref_def value_at_def)
  have d2: "Iterator_deref h' it = Some (Inr (value_at h c))"
    unfolding itc using old [OF cn] vals [rule_format, of c]
    by (simp add: Iterator_deref_def value_at_def)
  let ?nxt = "\<lparr>current = (case cs of [] \<Rightarrow> None | d # _ \<Rightarrow> Some d)\<rparr>"
  have i1: "Iterator_incr h it = Some ?nxt"
    unfolding itc using l0 by (simp add: Iterator_incr_def)
  have i2: "Iterator_incr h' it = Some ?nxt"
    unfolding itc using l0 lc by (simp add: Iterator_incr_def)
  have last: "Iterator_eq ?nxt SkipList_end \<or>
            (\<exists>y. Iterator_deref h' ?nxt = Some (Inr y) \<and>
                 SkipList_find lt eq y h' s' = Some ?nxt)"
  proof (cases cs)
    case Nil
    then show ?thesis by (simp add: Iterator_eq_def SkipList_end_def)
  next
    case (Cons d ds)
    let ?y = "value_at h' d"
    have dn: "d \<in> set ns" using ns Cons by simp
    have dd: "Iterator_deref h' ?nxt = Some (Inr ?y)"
      unfolding Cons using old [OF dn] by (simp add: Iterator_deref_def value_at_def)
    have "lt (value_at h b) (value_at h d)" if "b \<in> set lows" for b
      using sorted that unfolding ns Cons by (simp add: sorted_wrt_append)
    then have "dropWhile (\<lambda>b. lt (value_at h' b) ?y) (lows @ d # ds) = d # ds"
      using vals irr by (intro dropWhile_from) auto
    with find_spec [OF sk' downward_lt [OF tr], where eq = eq and v = ?y]
      eq_refl [OF swo cons, of ?y]
    have "SkipList_find lt eq ?y h' s' = Some ?nxt"
      unfolding Cons by simp
    with dd show ?thesis by blast
  qed
  from fr have fr': "\<forall>b j. link h' b j = link h b j \<or> link h b j = Some (Some c)" by blast
  from r itc vals lc fr' d1 d2 e i1 i2 last show ?thesis
    by (intro exI [of _ h'] exI [of _ s'] exI [of _ c] exI [of _ "value_at h c"]
        exI [of _ ?nxt]) simp
qed

theorem erase_leaves_node_witness:
  "strict_weak_order ((<) :: int \<Rightarrow> int \<Rightarrow> bool) \<and>
   consistent_eq ((<) :: int \<Rightarrow> int \<Rightarrow> bool) (=) \<and>
   valid (<) example_heap example_list \<and>
   SkipList_find (<) (=) 5 example_heap example_list = Some \<lparr>current = Some 1\<rparr> \<and>
   Iterator_neq \<lparr>current = Some 1\<rparr> SkipList_end \<and>
   (\<exists>h' s' x nxt.
      SkipList_erase (<) (=) 5 example_heap example_list = Some (True, h', s') \<and>
      Iterator_deref h' \<lparr>current = Some 1\<rparr> = Some (Inr x) \<and> x = 5 \<and>
      Iterator_incr h' \<lparr>current = Some 1\<rparr> = Some nxt \<and>
      Iterator_incr example_heap \<lparr>current = Some 1\<rparr> = Some nxt \<and>
      (Iterator_eq nxt SkipList_end \<or>
       (\<exists>y. Iterator_deref h' nxt = Some (Inr y) \<and> SkipList_find (<) (=) y h' s' = Some nxt))) \<and>
   map_option (\<lambda>(b, h', s').
       (b, Iterator_deref h' \<lparr>current = Some 1\<rparr>,
        map_option (Iterator_deref h') (Iterator_incr h' \<lparr>current = Some 1\<rparr>), iterate h' s'))
     (SkipList_erase (<) (=) 5 example_heap example_list) =
     Some (True, Some (Inr 5), Some (Some (Inr 7)), Some [3, 7])"
proof -
  have f: "SkipList_find (<) (=) 5 example_heap example_list = Some \<lparr>current = Some 1\<rparr>"
    by code_simp
  have n: "Iterator_neq \<lparr>current = Some 1\<rparr> SkipList_end"
    by (simp add: Iterator_neq_def Iterator_eq_def SkipList_end_def)
  have ev: "map_option (\<lambda>(b, h', s').
       (b, Iterator_deref h' \<lparr>current = Some 1\<rparr>,
        map_option (Iterator_deref h') (Iterator_incr h' \<lparr>current = Some 1\<rparr>), iterate h' s'))
     (SkipList_erase (<) (=) 5 example_heap example_list) =
     Some (True, Some (Inr 5), Some (Some (Inr 7)), Some [3, 7])"
    by code_simp
  from erase_leaves_node [OF int_strict_weak_order int_consistent_eq example_valid f n]
  have "\<exists>h' s' x nxt.
      SkipList_erase (<) (=) 5 example_heap example_list = Some (True, h', s') \<and>
      Iterator_deref h' \<lparr>current = Some 1\<rparr> = Some (Inr x) \<and> x = 5 \<and>
      Iterator_incr h' \<lparr>current = Some 1\<rparr> = Some nxt \<and>
      Iterator_incr example_heap \<lparr>current = Some 1\<rparr> = Some nxt \<and>
      (Iterator_eq nxt SkipList_end \<or>
       (\<exists>y. Iterator_deref h' nxt = Some (Inr y) \<and> SkipList_find (<) (=) y h' s' = Some nxt))"
    by blast
  with int_strict_weak_order int_consistent_eq example_valid f n ev show ?thesis by blast
qed

subsection \<open>The source of a move\<close>

text \<open>
  C3. The destination of a move construction or a move assignment is the source as it
  was, and the source reports \<open>size() == 0\<close> and \<open>current_level == 0\<close>. But its
  \<open>head\<close> is null: \<open>begin\<close>, full iteration, \<open>find\<close>, \<open>insert\<close> and \<open>erase\<close> on it read
  through the null pointer and have no defined result. The source is not a usable empty
  container.
\<close>

theorem moved_from_has_no_head:
  "fst (SkipList_move s) = s \<and>
   fst (SkipList_move_assign this s) = s \<and>
   snd (SkipList_move_assign this s) = snd (SkipList_move s) \<and>
   SkipList_size (snd (SkipList_move s)) = 0 \<and>
   SkipList_empty (snd (SkipList_move s)) \<and>
   current_level (snd (SkipList_move s)) = 0 \<and>
   head (snd (SkipList_move s)) = None \<and>
   SkipList_begin h (snd (SkipList_move s)) = None \<and>
   iterate h (snd (SkipList_move s)) = None \<and>
   SkipList_find lt eq v h (snd (SkipList_move s)) = None \<and>
   SkipList_insert lt eq mem v h (snd (SkipList_move s)) = None \<and>
   SkipList_insert_rvalue lt eq mem v h (snd (SkipList_move s)) = None \<and>
   SkipList_erase lt eq v h (snd (SkipList_move s)) = None"
  by (cases s, cases this)
    (simp add: SkipList_move_def SkipList_move_assign_def SkipList_size_def SkipList_empty_def
      SkipList_begin_def iterate_def SkipList_find_def SkipList_insert_def
      SkipList_insert_rvalue_def SkipList_erase_def)

text \<open>The test \<open>MoveConstructor\<close>, continued by one call of \<open>begin\<close> on the source.\<close>

lemma moved_from_example:
  "SkipList_size (snd (SkipList_move example_list)) = 0 \<and>
   iterate example_heap (fst (SkipList_move example_list)) = Some [3, 5, 7] \<and>
   SkipList_begin example_heap (snd (SkipList_move example_list)) = None"
  by code_simp

subsection \<open>The equality test\<close>

text \<open>
  C4, as stated, fails. \<open>CustomType\<close> has a strict weak \<open>operator<\<close>, and neither of
  \<open>(2, "two")\<close> and \<open>(2, "deux")\<close> is less than the other; yet \<open>insert\<close> does not
  treat them as equal: after inserting both, the list holds two elements.
\<close>

theorem equality_not_derived:
  "strict_weak_order custom_less \<and>
   derived_eq custom_less (2, ''two'') (2, ''deux'') \<and>
   map_option (\<lambda>(h, s). (SkipList_size s, iterate h s))
     (run custom_less (=) (0, []) [Insert (2, ''two''), Insert (2, ''deux'')]
        (SkipList_default (0, []) (\<lambda>n. 1 / 2) [])) =
     Some (2, Some [(2, ''deux''), (2, ''two'')])"
proof -
  have "derived_eq custom_less (2, ''two'') (2, ''deux'')"
    by (simp add: derived_eq_def custom_less_def)
  moreover have "map_option (\<lambda>(h, s). (SkipList_size s, iterate h s))
     (run custom_less (=) (0, []) [Insert (2, ''two''), Insert (2, ''deux'')]
        (SkipList_default (0, []) (\<lambda>n. 1 / 2) [])) =
     Some (2, Some [(2, ''deux''), (2, ''two'')])"
    by code_simp
  ultimately show ?thesis using custom_strict_weak_order by blast
qed

text \<open>
  Whatever \<open>operator==\<close> is, every sequence of calls on a new list returns and builds
  a list whose values do not descend.
\<close>

lemma reachable_not_greater:
  assumes swo: "strict_weak_order lt"
  shows "\<exists>h s. run lt eq dflt calls (SkipList_default dflt seed h0) = Some (h, s) \<and>
           valid (not_greater lt) h s"
proof -
  obtain h1 s1 where d: "SkipList_default dflt seed h0 = (h1, s1)"
    by (cases "SkipList_default dflt seed h0")
  from run_not_greater [OF swo default_valid [OF d], of eq dflt calls] show ?thesis
    unfolding d .
qed

text \<open>
  C4, amended. For an element type with a strict weak \<open>operator<\<close> and any
  \<open>operator==\<close>, in every set whose values \<open>xs\<close> do not descend: \<open>find\<close>,
  \<open>erase\<close> and \<open>insert\<close> decide membership by the type's own \<open>operator==\<close> (its
  negation \<open>!=\<close> in \<open>insert\<close>), applied to the first element that is not less than
  \<open>v\<close>. \<open>find\<close> returns an iterator other than the end, \<open>erase\<close> returns \<open>true\<close>,
  and \<open>insert\<close> leaves \<open>size()\<close> as it is, exactly when that test succeeds. The test
  is the derived relation when \<open>operator==\<close> agrees with it. The sets whose values do
  not descend are all the sets that the public operations build, whatever \<open>operator==\<close>
  is (lemma \<open>reachable_not_greater\<close>), the set of the two equivalent elements above among
  them; a set whose values ascend strictly is one of them (lemma \<open>valid_not_greater\<close>).
\<close>

theorem membership_test:
  assumes swo: "strict_weak_order lt" and v: "valid (not_greater lt) h s"
    and it: "iterate h s = Some xs"
  shows "(\<exists>i. SkipList_find lt eq v h s = Some i \<and>
              (Iterator_neq i SkipList_end \<longleftrightarrow> found lt eq v xs)) \<and>
         (\<exists>b h' s'. SkipList_erase lt eq v h s = Some (b, h', s') \<and> (b \<longleftrightarrow> found lt eq v xs)) \<and>
         (\<exists>h' s'. SkipList_insert lt eq True v h s = Some (Inr (), h', s') \<and>
              (SkipList_size s' = SkipList_size s \<longleftrightarrow> found lt eq v xs)) \<and>
         (consistent_eq lt eq \<longrightarrow> found lt eq v xs = found lt (derived_eq lt) v xs)"
proof -
  from find_values [OF v swo_downward [OF swo] it, of eq v]
  have 1: "\<exists>i. SkipList_find lt eq v h s = Some i \<and>
              (Iterator_neq i SkipList_end \<longleftrightarrow> found lt eq v xs)"
    unfolding Iterator_neq_def by auto
  from erase_not_greater [OF swo v it, of eq v]
  have 2: "\<exists>b h' s'. SkipList_erase lt eq v h s = Some (b, h', s') \<and> (b \<longleftrightarrow> found lt eq v xs)"
    by blast
  from insert_not_greater [OF swo v it, of eq v]
  have 3: "\<exists>h' s'. SkipList_insert lt eq True v h s = Some (Inr (), h', s') \<and>
              (SkipList_size s' = SkipList_size s \<longleftrightarrow> found lt eq v xs)"
    unfolding SkipList_size_def by blast
  have 4: "found lt eq v xs = found lt (derived_eq lt) v xs" if "consistent_eq lt eq"
  proof (cases "dropWhile (\<lambda>x. lt x v) xs")
    case Nil
    show ?thesis
      using found_Nil [where lt = lt and v = v, OF Nil] by simp
  next
    case (Cons c cs)
    show ?thesis
      using that unfolding found_Cons [where lt = lt and v = v, OF Cons]
      by (simp add: consistent_eq_def)
  qed
  from 1 2 3 4 show ?thesis by blast
qed

theorem membership_test_witness:
  "strict_weak_order custom_less \<and>
   valid (not_greater custom_less) custom_pair_heap custom_pair_list \<and>
   iterate custom_pair_heap custom_pair_list = Some [(2, ''deux''), (2, ''two'')] \<and>
   \<not> found custom_less (=) (2, ''two'') [(2, ''deux''), (2, ''two'')] \<and>
   found custom_less (derived_eq custom_less) (2, ''two'') [(2, ''deux''), (2, ''two'')] \<and>
   (\<exists>i. SkipList_find custom_less (=) (2, ''two'') custom_pair_heap custom_pair_list = Some i \<and>
        Iterator_eq i SkipList_end) \<and>
   (\<exists>h' s'. SkipList_erase custom_less (=) (2, ''two'') custom_pair_heap custom_pair_list =
        Some (False, h', s')) \<and>
   (\<exists>h' s'. SkipList_insert custom_less (=) True (2, ''two'') custom_pair_heap custom_pair_list =
        Some (Inr (), h', s') \<and> SkipList_size s' \<noteq> SkipList_size custom_pair_list) \<and>
   (\<exists>i. SkipList_find custom_less (=) (2, ''deux'') custom_pair_heap custom_pair_list = Some i \<and>
        Iterator_neq i SkipList_end)"
proof -
  have nf: "\<not> found custom_less (=) (2, ''two'') [(2, ''deux''), (2, ''two'')]"
    by (simp add: found_def custom_less_def)
  have fd: "found custom_less (derived_eq custom_less) (2, ''two'') [(2, ''deux''), (2, ''two'')]"
    by (simp add: found_def custom_less_def derived_eq_def)
  have f2: "found custom_less (=) (2, ''deux'') [(2, ''deux''), (2, ''two'')]"
    by (simp add: found_def custom_less_def)
  from membership_test [OF custom_strict_weak_order custom_pair_valid custom_pair_iterate,
      where eq = "(=)" and v = "(2, ''two'')"] nf
  have "(\<exists>i. SkipList_find custom_less (=) (2, ''two'') custom_pair_heap custom_pair_list = Some i \<and>
        Iterator_eq i SkipList_end) \<and>
   (\<exists>h' s'. SkipList_erase custom_less (=) (2, ''two'') custom_pair_heap custom_pair_list =
        Some (False, h', s')) \<and>
   (\<exists>h' s'. SkipList_insert custom_less (=) True (2, ''two'') custom_pair_heap custom_pair_list =
        Some (Inr (), h', s') \<and> SkipList_size s' \<noteq> SkipList_size custom_pair_list)"
    unfolding Iterator_neq_def by auto
  moreover
  from membership_test [OF custom_strict_weak_order custom_pair_valid custom_pair_iterate,
      where eq = "(=)" and v = "(2, ''deux'')"] f2
  have "\<exists>i. SkipList_find custom_less (=) (2, ''deux'') custom_pair_heap custom_pair_list = Some i \<and>
        Iterator_neq i SkipList_end"
    by auto
  ultimately show ?thesis
    using custom_strict_weak_order custom_pair_valid custom_pair_iterate nf fd by blast
qed

subsection \<open>Allocation failure in \<open>insert\<close>\<close>

text \<open>
  C7, as stated, fails. On a new list whose generator samples level 1 for the first node,
  an \<open>insert\<close> whose allocation fails throws \<open>bad_alloc\<close> with \<open>current_level\<close> raised
  from 0 to 1, although the list holds no node.
\<close>

theorem failed_insert_raises_level:
  "map_option (\<lambda>(r, h', s'). (r, current_level s', iterate h' s'))
     (SkipList_insert (<) (=) False 5 (fst (SkipList_default (0 :: int) example_seed []))
        (snd (SkipList_default (0 :: int) example_seed []))) =
     Some (Inl bad_alloc, 1, Some []) \<and>
   current_level (snd (SkipList_default (0 :: int) example_seed [])) = 0"
  by code_simp

text \<open>
  C7, amended. In every well-formed set, when \<open>insert(v)\<close> reaches the allocation of the
  new node (no element passes the equality test) and the allocation fails, the call throws
  \<open>bad_alloc\<close> with no link rewired: the store is the one before the call, \<open>head\<close> and
  \<open>size_\<close> are unchanged, full iteration yields the same values and the set is still
  well formed. Nothing is said of \<open>current_level\<close> and of the generator.
\<close>

theorem insert_allocation_failure:
  assumes swo: "strict_weak_order lt" and v: "valid lt h s" and it: "iterate h s = Some xs"
    and nf: "\<not> found lt eq v xs"
  shows "\<exists>s'. SkipList_insert lt eq False v h s = Some (Inl bad_alloc, h, s') \<and>
           SkipList_insert_rvalue lt eq False v h s = Some (Inl bad_alloc, h, s') \<and>
           head s' = head s \<and> SkipList_size s' = SkipList_size s \<and>
           valid lt h s' \<and> iterate h s' = Some xs"
  using insert_values(2) [OF v downward_lt [OF swo_transp [OF swo]] it nf]
  unfolding SkipList_size_def insert_rvalue_eq by blast

theorem insert_allocation_failure_witness:
  "strict_weak_order ((<) :: int \<Rightarrow> int \<Rightarrow> bool) \<and>
   valid (<) example_heap example_list \<and>
   iterate example_heap example_list = Some [3, 5, 7] \<and>
   \<not> found (<) (=) 4 [3, 5, 7 :: int] \<and>
   (\<exists>s'. SkipList_insert (<) (=) False 4 example_heap example_list =
            Some (Inl bad_alloc, example_heap, s') \<and>
          head s' = head example_list \<and> SkipList_size s' = SkipList_size example_list \<and>
          valid (<) example_heap s' \<and> iterate example_heap s' = Some [3, 5, 7])"
proof -
  have nf: "\<not> found (<) (=) 4 [3, 5, 7 :: int]"
    by (simp add: found_def)
  from insert_allocation_failure [OF int_strict_weak_order example_valid example_iterate nf]
  have "\<exists>s'. SkipList_insert (<) (=) False 4 example_heap example_list =
            Some (Inl bad_alloc, example_heap, s') \<and>
          head s' = head example_list \<and> SkipList_size s' = SkipList_size example_list \<and>
          valid (<) example_heap s' \<and> iterate example_heap s' = Some [3, 5, 7]"
    by blast
  with int_strict_weak_order example_valid example_iterate nf show ?thesis by blast
qed

subsection \<open>The two overloads of \<open>insert\<close>\<close>


subsection \<open>The error of the iterator\<close>

lemma insert_rest_no_throw:
  "insert_rest eq mk True v h s update cur \<noteq> Some (Inl e, h', s')"
  by (auto simp: insert_rest_def Let_def split: option.splits bool.splits prod.splits if_splits)

text \<open>
  C8. In every store, \<open>operator*\<close> and \<open>operator->\<close> of an end-positioned iterator
  throw \<open>std::runtime_error\<close> with the message \<open>Dereferencing null iterator\<close>, and they
  throw in no other position. The other operations have no exceptional result at all,
  except \<open>insert\<close>, which throws nothing as long as the allocation succeeds.
\<close>

theorem end_dereference_only_error:
  "Iterator_deref h SkipList_end = Some (Inl (runtime_error ''Dereferencing null iterator'')) \<and>
   Iterator_arrow h SkipList_end = Some (Inl (runtime_error ''Dereferencing null iterator'')) \<and>
   (Iterator_deref h it = Some (Inl e) \<longleftrightarrow>
      Iterator_eq it SkipList_end \<and> e = runtime_error ''Dereferencing null iterator'') \<and>
   (Iterator_arrow h it = Some (Inl e) \<longleftrightarrow>
      Iterator_eq it SkipList_end \<and> e = runtime_error ''Dereferencing null iterator'') \<and>
   SkipList_insert lt eq True v h s \<noteq> Some (Inl e', h', s') \<and>
   SkipList_insert_rvalue lt eq True v h s \<noteq> Some (Inl e', h', s')"
  by (auto simp: Iterator_deref_def Iterator_arrow_def SkipList_end_def Iterator_eq_def
      SkipList_insert_def SkipList_insert_rvalue_def insert_rest_no_throw
      split: option.splits)

end
